theory Spec2Isabelle
  imports Main "HOL-Library.Sublist"
begin

section \<open>Errors and values\<close>

text \<open>
  The exceptions that the modelled Python code can raise.  A function that can raise
  returns \<open>error + 'a\<close>, with \<open>Inl\<close> for the exception that reaches the caller.
  \<open>StoreError\<close> stands for the opaque errors of a storage backend and
  \<open>ObserverError\<close> for the failure of a subscriber.
\<close>

datatype error =
    InvalidPatternError
  | IndexError
  | TypeError
  | StoreError string
  | ObserverError string

text \<open>
  The fragment of Python's values that the type tests of the conditions tell apart:
  \<open>None\<close>, integers, strings, lists and tuples.  On this fragment Python's \<open>==\<close> is
  structural equality: values of different types are unequal.
\<close>

datatype pyval =
    PNone
  | PInt int
  | PStr string
  | PList "pyval list"
  | PTuple "pyval list"

text \<open>\<open>isinstance(v, str)\<close> and \<open>isinstance(v, list)\<close>.\<close>

fun is_str :: "pyval \<Rightarrow> bool" where
  "is_str (PStr s) = True"
| "is_str v = False"

fun is_list :: "pyval \<Rightarrow> bool" where
  "is_list (PList vs) = True"
| "is_list v = False"

text \<open>\<open>len(v)\<close>: a \<open>TypeError\<close> for a value that has no length.\<close>

fun py_len :: "pyval \<Rightarrow> error + nat" where
  "py_len (PStr s) = Inr (length s)"
| "py_len (PList vs) = Inr (length vs)"
| "py_len (PTuple vs) = Inr (length vs)"
| "py_len v = Inl TypeError"

text \<open>
  \<open>v[i]\<close> for a non-negative index: the element of a list or a tuple, the one-character
  string of a string, \<open>IndexError\<close> out of range and \<open>TypeError\<close> for a value that
  cannot be subscripted.
\<close>

fun py_index :: "pyval \<Rightarrow> nat \<Rightarrow> error + pyval" where
  "py_index (PStr s) i = (if i < length s then Inr (PStr [s ! i]) else Inl IndexError)"
| "py_index (PList vs) i = (if i < length vs then Inr (vs ! i) else Inl IndexError)"
| "py_index (PTuple vs) i = (if i < length vs then Inr (vs ! i) else Inl IndexError)"
| "py_index v i = Inl TypeError"

section \<open>Conditions\<close>

subsection \<open>StringEqualCondition\<close>

record StringEqualCondition =
  equals :: string

text \<open>The constructor raises \<open>TypeError\<close> unless \<open>equals\<close> is a string.\<close>

fun StringEqualCondition_init :: "pyval \<Rightarrow> error + StringEqualCondition" where
  "StringEqualCondition_init (PStr s) = Inr \<lparr>equals = s\<rparr>"
| "StringEqualCondition_init v = Inl TypeError"

definition StringEqualCondition_satisfied ::
    "StringEqualCondition \<Rightarrow> pyval \<Rightarrow> 'r \<Rightarrow> error + bool" where
  "StringEqualCondition_satisfied self what request =
     Inr (is_str what \<and> what = PStr (equals self))"

subsection \<open>StringPairsEqualCondition\<close>

text \<open>
  The body of the loop over \<open>what\<close>, one pair after the other.  \<open>len(pair)\<close> is
  evaluated first and raises for a value without a length; a pair is rejected by the
  type test only when neither of its elements is a string.
\<close>

fun pairs_loop :: "pyval list \<Rightarrow> error + bool" where
  "pairs_loop [] = Inr True"
| "pairs_loop (pair # rest) =
     (case py_len pair of
        Inl e \<Rightarrow> Inl e
      | Inr n \<Rightarrow>
          if n \<noteq> 2 then Inr False
          else (case py_index pair 0 of
                  Inl e \<Rightarrow> Inl e
                | Inr a \<Rightarrow>
                   (case py_index pair 1 of
                      Inl e \<Rightarrow> Inl e
                    | Inr b \<Rightarrow>
                        if \<not> is_str a \<and> \<not> is_str b then Inr False
                        else if a \<noteq> b then Inr False
                        else pairs_loop rest)))"

fun StringPairsEqualCondition_satisfied :: "pyval \<Rightarrow> 'r \<Rightarrow> error + bool" where
  "StringPairsEqualCondition_satisfied (PList pairs) request = pairs_loop pairs"
| "StringPairsEqualCondition_satisfied what request = Inr False"

section \<open>Policies\<close>

text \<open>
  Modelled from the spec: the \<open>Policy\<close> class is not part of the sources.  A policy
  exposes a single-character \<open>start_tag\<close> and \<open>end_tag\<close> and named fields (its attributes), each an
  ordered sequence of pattern strings.
\<close>

record policy =
  start_tag :: char
  end_tag :: char
  attributes :: "string \<Rightarrow> string list option"

text \<open>\<open>getattr(policy, field, [])\<close>: a missing field reads as the empty list.\<close>

definition getattr_field :: "policy \<Rightarrow> string \<Rightarrow> string list" where
  "getattr_field p field = (case attributes p field of None \<Rightarrow> [] | Some xs \<Rightarrow> xs)"

section \<open>String checkers\<close>

text \<open>
  \<open>item[1:-1]\<close> of a non-empty string: the string without its first and its last
  character (empty for a string of one character).
\<close>

definition strip_ends :: "string \<Rightarrow> string" where
  "strip_ends item = butlast (tl item)"

text \<open>
  The loop of \<open>StringChecker.fits\<close>.  \<open>item[0]\<close> is evaluated for every item that is
  reached and raises \<open>IndexError\<close> on the empty string.
\<close>

fun StringChecker_loop ::
    "(string \<Rightarrow> string \<Rightarrow> bool) \<Rightarrow> policy \<Rightarrow> string \<Rightarrow> string list \<Rightarrow> error + bool" where
  "StringChecker_loop compare p what [] = Inr False"
| "StringChecker_loop compare p what (item # rest) =
     (if item = [] then Inl IndexError
      else
        let item' = (if start_tag p = hd item \<and> end_tag p = last item
                     then strip_ends item else item)
        in if compare what item' then Inr True
           else StringChecker_loop compare p what rest)"

definition StringChecker_fits ::
    "(string \<Rightarrow> string \<Rightarrow> bool) \<Rightarrow> policy \<Rightarrow> string \<Rightarrow> string \<Rightarrow> error + bool" where
  "StringChecker_fits compare p field what =
     StringChecker_loop compare p what (getattr_field p field)"

definition StringExactChecker_compare :: "string \<Rightarrow> string \<Rightarrow> bool" where
  "StringExactChecker_compare needle haystack = (needle = haystack)"

text \<open>\<open>needle in haystack\<close>: the needle is a contiguous part of the haystack.\<close>

definition StringFuzzyChecker_compare :: "string \<Rightarrow> string \<Rightarrow> bool" where
  "StringFuzzyChecker_compare needle haystack = sublist needle haystack"

section \<open>Regex checker\<close>

text \<open>
  The checker is parametric in the pattern compiler \<open>compile_regex\<close> of the parser
  module and in the matcher \<open>re.match\<close>: \<open>cr phrase start end\<close> returns the compiled
  pattern or the exception it raises, \<open>rm pattern what\<close> tells whether the pattern
  matches at the start of \<open>what\<close>.

  The state of a checker is the cache that \<open>lru_cache\<close> keeps for \<open>self.compile\<close>,
  most recently used entry first, its bound, the entries written by \<open>log.exception\<close>
  and, as a record of what happened, the sequence of calls that reached the compiler.
\<close>

type_synonym cache_key = "string \<times> char \<times> char"

record 'p RegexChecker =
  cache_size :: int
  cache :: "(cache_key \<times> 'p) list"
  compile_calls :: "cache_key list"
  log :: "string list"

definition RegexChecker_init :: "int \<Rightarrow> 'p RegexChecker" where
  "RegexChecker_init n = \<lparr>cache_size = n, cache = [], compile_calls = [], log = []\<rparr>"

text \<open>
  \<open>self.compile\<close>, the compiler behind \<open>lru_cache(maxsize=cache_size)\<close>, for one
  caller at a time and an integer bound.  A bound of zero or less switches caching off.  Otherwise a hit returns the stored pattern and
  moves its entry to the front; a miss calls the compiler, and only a pattern that
  was returned is stored, at the front, the entry at the back being dropped when the
  cache is full.  An exception of the compiler passes through and stores nothing.
\<close>

definition RegexChecker_compile ::
    "(string \<Rightarrow> char \<Rightarrow> char \<Rightarrow> error + 'p) \<Rightarrow> string \<Rightarrow> char \<Rightarrow> char \<Rightarrow> 'p RegexChecker
      \<Rightarrow> (error + 'p) \<times> 'p RegexChecker" where
  "RegexChecker_compile cr i st en self =
     (let k = (i, st, en) in
      if cache_size self \<le> 0
      then (cr i st en, self\<lparr>compile_calls := compile_calls self @ [k]\<rparr>)
      else
        (case map_of (cache self) k of
           Some pattern \<Rightarrow>
             (Inr pattern, self\<lparr>cache := (k, pattern) # filter (\<lambda>e. fst e \<noteq> k) (cache self)\<rparr>)
         | None \<Rightarrow>
            (case cr i st en of
               Inl e \<Rightarrow> (Inl e, self\<lparr>compile_calls := compile_calls self @ [k]\<rparr>)
             | Inr pattern \<Rightarrow>
                 (Inr pattern,
                  self\<lparr>compile_calls := compile_calls self @ [k],
                       cache := take (nat (cache_size self)) ((k, pattern) # cache self)\<rparr>))))"

text \<open>
  The loop of \<open>RegexChecker.fits\<close> over the items of the field.  The result is \<open>None\<close>
  when the loop runs to its end, and the value returned or the exception raised from
  inside the loop otherwise.  Only \<open>InvalidPatternError\<close> is caught.
\<close>

fun RegexChecker_loop ::
    "(string \<Rightarrow> char \<Rightarrow> char \<Rightarrow> error + 'p) \<Rightarrow> ('p \<Rightarrow> string \<Rightarrow> bool) \<Rightarrow> policy \<Rightarrow> string
      \<Rightarrow> string list \<Rightarrow> 'p RegexChecker \<Rightarrow> (error + bool) option \<times> 'p RegexChecker" where
  "RegexChecker_loop cr rm p what [] self = (None, self)"
| "RegexChecker_loop cr rm p what (i # rest) self =
     (if start_tag p \<notin> set i \<and> end_tag p \<notin> set i
      then (if i \<noteq> what then RegexChecker_loop cr rm p what rest self
            else (Some (Inr True), self))
      else
        (case RegexChecker_compile cr i (start_tag p) (end_tag p) self of
           (Inl e, self') \<Rightarrow>
             if e = InvalidPatternError
             then (Some (Inr False), self'\<lparr>log := log self' @ [i]\<rparr>)
             else (Some (Inl e), self')
         | (Inr pattern, self') \<Rightarrow>
             if rm pattern what then (Some (Inr True), self')
             else RegexChecker_loop cr rm p what rest self'))"

definition RegexChecker_fits ::
    "(string \<Rightarrow> char \<Rightarrow> char \<Rightarrow> error + 'p) \<Rightarrow> ('p \<Rightarrow> string \<Rightarrow> bool) \<Rightarrow> 'p RegexChecker
      \<Rightarrow> policy \<Rightarrow> string \<Rightarrow> string \<Rightarrow> (error + bool) \<times> 'p RegexChecker" where
  "RegexChecker_fits cr rm self p field what =
     (case RegexChecker_loop cr rm p what (getattr_field p field) self of
        (None, self') \<Rightarrow> (Inr False, self')
      | (Some r, self') \<Rightarrow> (r, self'))"

section \<open>Pattern compiler and matcher\<close>

text \<open>
  Neither the parser module with \<open>compile_regex\<close> nor Python's \<open>re\<close> module is part
  of the sources.  The checker above takes both as parameters; this section gives
  the instance that the worked examples are evaluated with.

  A compiled pattern is a regular expression over characters, with the two anchors
  \<open>^\<close> (\<open>Bol\<close>) and \<open>$\<close> (\<open>Eol\<close>).  \<open>Cls neg rs\<close> is a character class: the characters
  inside one of the ranges \<open>rs\<close>, or outside all of them when \<open>neg\<close> holds.
\<close>

datatype regex =
    Zero
  | One
  | Chr char
  | Any
  | Cls bool "(char \<times> char) list"
  | Seq regex regex
  | Alt regex regex
  | Star regex
  | Bol
  | Eol

definition newline :: char where
  "newline = CHR 0x0A"

definition in_ranges :: "char \<Rightarrow> (char \<times> char) list \<Rightarrow> bool" where
  "in_ranges c rs =
     (\<exists>(lo, hi) \<in> set rs. (of_char lo :: nat) \<le> of_char c \<and> (of_char c :: nat) \<le> of_char hi)"

text \<open>
  Matching by derivatives.  Both functions know the position they work at: \<open>b\<close> tells
  whether it is the start of the value and \<open>rest\<close> is the input from there on.
  \<open>nullable b rest r\<close> holds when \<open>r\<close> matches the empty word at that position;
  \<open>$\<close> matches at the end of the value and before a newline that ends it, \<open>.\<close>
  matches every character but the newline.
\<close>

fun nullable :: "bool \<Rightarrow> string \<Rightarrow> regex \<Rightarrow> bool" where
  "nullable b rest Zero = False"
| "nullable b rest One = True"
| "nullable b rest (Chr c) = False"
| "nullable b rest Any = False"
| "nullable b rest (Cls neg rs) = False"
| "nullable b rest (Seq r s) = (nullable b rest r \<and> nullable b rest s)"
| "nullable b rest (Alt r s) = (nullable b rest r \<or> nullable b rest s)"
| "nullable b rest (Star r) = True"
| "nullable b rest Bol = b"
| "nullable b rest Eol = (rest = [] \<or> rest = [newline])"

fun deriv :: "bool \<Rightarrow> string \<Rightarrow> char \<Rightarrow> regex \<Rightarrow> regex" where
  "deriv b rest c Zero = Zero"
| "deriv b rest c One = Zero"
| "deriv b rest c (Chr d) = (if c = d then One else Zero)"
| "deriv b rest c Any = (if c \<noteq> newline then One else Zero)"
| "deriv b rest c (Cls neg rs) = (if in_ranges c rs \<noteq> neg then One else Zero)"
| "deriv b rest c (Seq r s) =
     Alt (Seq (deriv b rest c r) s) (if nullable b rest r then deriv b rest c s else Zero)"
| "deriv b rest c (Alt r s) = Alt (deriv b rest c r) (deriv b rest c s)"
| "deriv b rest c (Star r) = Seq (deriv b rest c r) (Star r)"
| "deriv b rest c Bol = Zero"
| "deriv b rest c Eol = Zero"

text \<open>
  \<open>re.match(pattern, what)\<close>: the pattern matches some prefix of \<open>what\<close>, starting at
  its first character.
\<close>

fun match_prefix :: "bool \<Rightarrow> regex \<Rightarrow> string \<Rightarrow> bool" where
  "match_prefix b r [] = nullable b [] r"
| "match_prefix b r (c # cs) =
     (nullable b (c # cs) r \<or> match_prefix False (deriv b (c # cs) c r) cs)"

definition re_match :: "regex \<Rightarrow> string \<Rightarrow> bool" where
  "re_match pattern what = match_prefix True pattern what"

text \<open>
  What matching means, position by position: \<open>matches b r u v\<close> holds when \<open>r\<close>
  matches the word \<open>u\<close>, read at a position that is the start of the value exactly when
  \<open>b\<close> holds and followed by the rest \<open>v\<close> of the value.  A repetition is a sequence of
  non-empty matches of its body.
\<close>

inductive matches :: "bool \<Rightarrow> regex \<Rightarrow> string \<Rightarrow> string \<Rightarrow> bool" where
  m_One: "matches b One [] v"
| m_Chr: "matches b (Chr c) [c] v"
| m_Any: "c \<noteq> newline \<Longrightarrow> matches b Any [c] v"
| m_Cls: "in_ranges c rs \<noteq> neg \<Longrightarrow> matches b (Cls neg rs) [c] v"
| m_Seq: "matches b r u1 (u2 @ v) \<Longrightarrow> matches (b \<and> u1 = []) s u2 v
          \<Longrightarrow> matches b (Seq r s) (u1 @ u2) v"
| m_AltL: "matches b r u v \<Longrightarrow> matches b (Alt r s) u v"
| m_AltR: "matches b s u v \<Longrightarrow> matches b (Alt r s) u v"
| m_Star0: "matches b (Star r) [] v"
| m_StarS: "u1 \<noteq> [] \<Longrightarrow> matches b r u1 (u2 @ v) \<Longrightarrow> matches False (Star r) u2 v
          \<Longrightarrow> matches b (Star r) (u1 @ u2) v"
| m_Bol: "matches True Bol [] v"
| m_Eol: "v = [] \<or> v = [newline] \<Longrightarrow> matches b Eol [] v"

subsection \<open>Reading a regular expression\<close>

text \<open>
  The reader covers a fragment of Python's syntax: literal characters, \<open>.\<close>, \<open>^\<close>,
  \<open>$\<close>, groups \<open>(...)\<close>, alternatives \<open>|\<close>, the repetitions \<open>*\<close>, \<open>+\<close> and \<open>?\<close> after
  a character, a class or a group, classes \<open>[...]\<close> and \<open>[^...]\<close> with ranges, and a
  backslash before a character that is neither a letter nor a digit.  It rejects a
  text that Python rejects inside this fragment (nothing to repeat, a repeated
  repetition, an unbalanced parenthesis, an unterminated class, a range that runs
  backwards, a backslash at the end) and every text outside the fragment (counted
  repetitions, escapes of letters and digits, group extensions).

  The reader works through the text one character at a time.  A frame holds the
  finished alternatives of an open group and the items of the alternative being
  read, last item first; an item carries a flag that tells whether a repetition may
  follow it.  The mode records an unfinished escape or class.
\<close>

datatype mode =
    Normal
  | Esc
  | ClsOpen
  | ClsThis bool "(char \<times> char) list"
  | ClsAfter bool "(char \<times> char) list" char
  | ClsDash bool "(char \<times> char) list" char
  | ClsEsc bool "(char \<times> char) list" "char option"

type_synonym frame = "regex list \<times> (regex \<times> bool) list"

definition alnum :: "char \<Rightarrow> bool" where
  "alnum c =
     (let n = (of_char c :: nat)
      in (48 \<le> n \<and> n \<le> 57) \<or> (65 \<le> n \<and> n \<le> 90) \<or> (97 \<le> n \<and> n \<le> 122))"

fun seq_list :: "regex list \<Rightarrow> regex" where
  "seq_list [] = One"
| "seq_list [r] = r"
| "seq_list (r # rs) = Seq r (seq_list rs)"

fun alt_list :: "regex list \<Rightarrow> regex" where
  "alt_list [] = Zero"
| "alt_list [r] = r"
| "alt_list (r # rs) = Alt r (alt_list rs)"

definition close_frame :: "frame \<Rightarrow> regex" where
  "close_frame f = alt_list (rev (seq_list (rev (map fst (snd f))) # fst f))"

definition push_item :: "regex \<Rightarrow> bool \<Rightarrow> frame list \<Rightarrow> frame list" where
  "push_item r q fs =
     (case fs of [] \<Rightarrow> [] | (alts, items) # rest \<Rightarrow> (alts, (r, q) # items) # rest)"

definition repeat :: "char \<Rightarrow> regex \<Rightarrow> regex" where
  "repeat c r =
     (if c = CHR ''*'' then Star r
      else if c = CHR ''+'' then Seq r (Star r)
      else Alt r One)"

fun normal_step :: "char \<Rightarrow> frame list \<Rightarrow> (mode \<times> frame list) option" where
  "normal_step c [] = None"
| "normal_step c ((alts, items) # rest) =
     (if c = CHR 0x5C then Some (Esc, (alts, items) # rest)
      else if c = CHR ''['' then Some (ClsOpen, (alts, items) # rest)
      else if c = CHR ''('' then Some (Normal, ([], []) # (alts, items) # rest)
      else if c = CHR '')'' then
        (case rest of
           [] \<Rightarrow> None
         | parent # rest' \<Rightarrow>
             Some (Normal, push_item (close_frame (alts, items)) True (parent # rest')))
      else if c = CHR ''|'' then
        Some (Normal, (seq_list (rev (map fst items)) # alts, []) # rest)
      else if c = CHR ''*'' \<or> c = CHR ''+'' \<or> c = CHR ''?'' then
        (case items of
           (r, True) # items' \<Rightarrow> Some (Normal, (alts, (repeat c r, False) # items') # rest)
         | _ \<Rightarrow> None)
      else if c = CHR ''{'' then None
      else if c = CHR ''.'' then Some (Normal, (alts, (Any, True) # items) # rest)
      else if c = CHR ''^'' then Some (Normal, (alts, (Bol, False) # items) # rest)
      else if c = CHR ''$'' then Some (Normal, (alts, (Eol, False) # items) # rest)
      else Some (Normal, (alts, (Chr c, True) # items) # rest))"

text \<open>
  Inside a class: \<open>class_this\<close> reads the next member (a \<open>]\<close> closes the class unless
  it is its first member), \<open>class_range\<close> finishes a range \<open>lo-hi\<close>.
\<close>

definition class_this ::
    "bool \<Rightarrow> (char \<times> char) list \<Rightarrow> char \<Rightarrow> frame list \<Rightarrow> (mode \<times> frame list) option" where
  "class_this neg rs c fs =
     (if c = CHR '']'' \<and> rs \<noteq> [] then Some (Normal, push_item (Cls neg (rev rs)) True fs)
      else if c = CHR 0x5C then Some (ClsEsc neg rs None, fs)
      else Some (ClsAfter neg rs c, fs))"

definition class_range ::
    "bool \<Rightarrow> (char \<times> char) list \<Rightarrow> char \<Rightarrow> char \<Rightarrow> frame list
      \<Rightarrow> (mode \<times> frame list) option" where
  "class_range neg rs lo hi fs =
     (if (of_char hi :: nat) < of_char lo then None
      else Some (ClsThis neg ((lo, hi) # rs), fs))"

fun step :: "char \<Rightarrow> mode \<Rightarrow> frame list \<Rightarrow> (mode \<times> frame list) option" where
  "step c Normal fs = normal_step c fs"
| "step c Esc fs = (if alnum c then None else Some (Normal, push_item (Chr c) True fs))"
| "step c ClsOpen fs =
     (if c = CHR ''^'' then Some (ClsThis True [], fs) else class_this False [] c fs)"
| "step c (ClsThis neg rs) fs = class_this neg rs c fs"
| "step c (ClsAfter neg rs lo) fs =
     (if c = CHR ''-'' then Some (ClsDash neg rs lo, fs)
      else class_this neg ((lo, lo) # rs) c fs)"
| "step c (ClsDash neg rs lo) fs =
     (if c = CHR '']''
      then Some (Normal,
                 push_item (Cls neg (rev ((CHR ''-'', CHR ''-'') # (lo, lo) # rs))) True fs)
      else if c = CHR 0x5C then Some (ClsEsc neg rs (Some lo), fs)
      else class_range neg rs lo c fs)"
| "step c (ClsEsc neg rs None) fs =
     (if alnum c then None else Some (ClsAfter neg rs c, fs))"
| "step c (ClsEsc neg rs (Some lo)) fs =
     (if alnum c then None else class_range neg rs lo c fs)"

fun parse_loop :: "string \<Rightarrow> mode \<Rightarrow> frame list \<Rightarrow> regex option" where
  "parse_loop [] m fs =
     (case (m, fs) of (Normal, [f]) \<Rightarrow> Some (close_frame f) | _ \<Rightarrow> None)"
| "parse_loop (c # cs) m fs =
     (case step c m fs of None \<Rightarrow> None | Some (m', fs') \<Rightarrow> parse_loop cs m' fs')"

definition parse_regex :: "string \<Rightarrow> regex option" where
  "parse_regex src = parse_loop src Normal [([], [])]"

subsection \<open>The compiler\<close>

text \<open>
  A phrase is cut at its outermost tags into literal text and tagged regular
  expressions; tags inside a tagged part are counted and belong to its text.  The cut
  fails when the tags are not balanced.
\<close>

datatype segment = Literal string | Tagged string

fun segments :: "char \<Rightarrow> char \<Rightarrow> nat \<Rightarrow> string \<Rightarrow> string \<Rightarrow> segment list option" where
  "segments st en level acc [] = (if level = 0 then Some [Literal (rev acc)] else None)"
| "segments st en level acc (c # cs) =
     (if c = st then
        (if level = 0 then map_option ((#) (Literal (rev acc))) (segments st en 1 [] cs)
         else segments st en (Suc level) (c # acc) cs)
      else if c = en then
        (case level of
           0 \<Rightarrow> None
         | Suc 0 \<Rightarrow> map_option ((#) (Tagged (rev acc))) (segments st en 0 [] cs)
         | Suc l \<Rightarrow> segments st en l (c # acc) cs)
      else segments st en level (c # acc) cs)"

fun compile_segments :: "segment list \<Rightarrow> regex option" where
  "compile_segments [] = Some Eol"
| "compile_segments (Literal s # segs) =
     map_option (Seq (seq_list (map Chr s))) (compile_segments segs)"
| "compile_segments (Tagged src # segs) =
     (case parse_regex src of
        None \<Rightarrow> None
      | Some r \<Rightarrow> map_option (Seq r) (compile_segments segs))"

text \<open>
  Modelled from the spec: \<open>compile_regex\<close> of the parser module, which is not part of
  the sources.  It turns a tagged pattern source into a matcher and fails with an
  invalid-pattern error when the text between the tags is not a valid regular
  expression or when the tags are unbalanced.  Text outside the tags stands for
  itself.  The matcher ends with the end anchor: the docstring of \<open>RegexChecker\<close> and
  the worked example of the spec both say that \<open>Dogger\<close> does not fit \<open><Dog[se]?>\<close>,
  which \<open>re.match\<close>, anchored at the start only, gives for no other reading of the
  compiler.
\<close>

definition compile_regex :: "string \<Rightarrow> char \<Rightarrow> char \<Rightarrow> error + regex" where
  "compile_regex phrase st en =
     (case segments st en 0 [] phrase of
        None \<Rightarrow> Inl InvalidPatternError
      | Some segs \<Rightarrow>
         (case compile_segments segs of
            None \<Rightarrow> Inl InvalidPatternError
          | Some r \<Rightarrow> Inr r))"

section \<open>Observable storage\<close>

text \<open>
  Modelled from the spec: the \<open>Subject\<close> base class and the storage interface are not
  part of the sources.  A storage operation takes the state of the wrapped store and
  returns its result, or the error it raises, together with the new state of the
  store; the wrapper methods below take the operation they delegate to as their first
  argument.  A subscriber is a callback without arguments: it can read the store, acts
  on a state \<open>'w\<close> of its own and may fail.  \<open>notify\<close> invokes all current subscribers in
  subscription order, and the failure of a subscriber propagates to the caller.

  \<open>notify_calls\<close> and \<open>observer_calls\<close> count the invocations of \<open>notify\<close> and of
  subscribers.
\<close>

type_synonym ('s, 'w) observer = "'s \<Rightarrow> 'w \<Rightarrow> error option \<times> 'w"

record ('s, 'w) ObservableMutationStorage =
  storage :: 's
  observers :: "('s, 'w) observer list"
  world :: 'w
  notify_calls :: nat
  observer_calls :: nat

definition ObservableMutationStorage_init ::
    "'s \<Rightarrow> 'w \<Rightarrow> ('s, 'w) ObservableMutationStorage" where
  "ObservableMutationStorage_init s w =
     \<lparr>storage = s, observers = [], world = w, notify_calls = 0, observer_calls = 0\<rparr>"

definition subscribe ::
    "('s, 'w) observer \<Rightarrow> ('s, 'w) ObservableMutationStorage
      \<Rightarrow> ('s, 'w) ObservableMutationStorage" where
  "subscribe ob self = self\<lparr>observers := observers self @ [ob]\<rparr>"

fun run_observers ::
    "('s, 'w) observer list \<Rightarrow> 's \<Rightarrow> 'w \<Rightarrow> nat \<Rightarrow> error option \<times> 'w \<times> nat" where
  "run_observers [] s w n = (None, w, n)"
| "run_observers (ob # obs) s w n =
     (case ob s w of
        (Some e, w') \<Rightarrow> (Some e, w', Suc n)
      | (None, w') \<Rightarrow> run_observers obs s w' (Suc n))"

definition notify ::
    "('s, 'w) ObservableMutationStorage
      \<Rightarrow> error option \<times> ('s, 'w) ObservableMutationStorage" where
  "notify self =
     (case run_observers (observers self) (storage self) (world self) (observer_calls self) of
        (r, w', n') \<Rightarrow>
          (r, self\<lparr>world := w', notify_calls := Suc (notify_calls self),
                   observer_calls := n'\<rparr>))"

definition ObservableMutationStorage_add ::
    "('p \<Rightarrow> 's \<Rightarrow> (error + 'r) \<times> 's) \<Rightarrow> 'p \<Rightarrow> ('s, 'w) ObservableMutationStorage
      \<Rightarrow> (error + 'r) \<times> ('s, 'w) ObservableMutationStorage" where
  "ObservableMutationStorage_add store_add policy self =
     (case store_add policy (storage self) of
        (Inl e, s') \<Rightarrow> (Inl e, self\<lparr>storage := s'\<rparr>)
      | (Inr res, s') \<Rightarrow>
          (case notify (self\<lparr>storage := s'\<rparr>) of
             (Some e, self') \<Rightarrow> (Inl e, self')
           | (None, self') \<Rightarrow> (Inr res, self')))"

definition ObservableMutationStorage_update ::
    "('p \<Rightarrow> 's \<Rightarrow> (error + 'r) \<times> 's) \<Rightarrow> 'p \<Rightarrow> ('s, 'w) ObservableMutationStorage
      \<Rightarrow> (error + 'r) \<times> ('s, 'w) ObservableMutationStorage" where
  "ObservableMutationStorage_update store_update policy self =
     (case store_update policy (storage self) of
        (Inl e, s') \<Rightarrow> (Inl e, self\<lparr>storage := s'\<rparr>)
      | (Inr res, s') \<Rightarrow>
          (case notify (self\<lparr>storage := s'\<rparr>) of
             (Some e, self') \<Rightarrow> (Inl e, self')
           | (None, self') \<Rightarrow> (Inr res, self')))"

definition ObservableMutationStorage_delete ::
    "('u \<Rightarrow> 's \<Rightarrow> (error + 'r) \<times> 's) \<Rightarrow> 'u \<Rightarrow> ('s, 'w) ObservableMutationStorage
      \<Rightarrow> (error + 'r) \<times> ('s, 'w) ObservableMutationStorage" where
  "ObservableMutationStorage_delete store_delete uid self =
     (case store_delete uid (storage self) of
        (Inl e, s') \<Rightarrow> (Inl e, self\<lparr>storage := s'\<rparr>)
      | (Inr res, s') \<Rightarrow>
          (case notify (self\<lparr>storage := s'\<rparr>) of
             (Some e, self') \<Rightarrow> (Inl e, self')
           | (None, self') \<Rightarrow> (Inr res, self')))"

definition ObservableMutationStorage_get ::
    "('u \<Rightarrow> 's \<Rightarrow> (error + 'r) \<times> 's) \<Rightarrow> 'u \<Rightarrow> ('s, 'w) ObservableMutationStorage
      \<Rightarrow> (error + 'r) \<times> ('s, 'w) ObservableMutationStorage" where
  "ObservableMutationStorage_get store_get uid self =
     (case store_get uid (storage self) of (r, s') \<Rightarrow> (r, self\<lparr>storage := s'\<rparr>))"

definition ObservableMutationStorage_get_all ::
    "(int \<Rightarrow> int \<Rightarrow> 's \<Rightarrow> (error + 'r) \<times> 's) \<Rightarrow> int \<Rightarrow> int
      \<Rightarrow> ('s, 'w) ObservableMutationStorage
      \<Rightarrow> (error + 'r) \<times> ('s, 'w) ObservableMutationStorage" where
  "ObservableMutationStorage_get_all store_get_all limit offset self =
     (case store_get_all limit offset (storage self) of
        (r, s') \<Rightarrow> (r, self\<lparr>storage := s'\<rparr>))"

definition ObservableMutationStorage_find_for_inquiry ::
    "('q \<Rightarrow> 'c option \<Rightarrow> 's \<Rightarrow> (error + 'r) \<times> 's) \<Rightarrow> 'q \<Rightarrow> 'c option
      \<Rightarrow> ('s, 'w) ObservableMutationStorage
      \<Rightarrow> (error + 'r) \<times> ('s, 'w) ObservableMutationStorage" where
  "ObservableMutationStorage_find_for_inquiry store_find_for_inquiry inquiry checker self =
     (case store_find_for_inquiry inquiry checker (storage self) of
        (r, s') \<Rightarrow> (r, self\<lparr>storage := s'\<rparr>))"

section \<open>Notions used in the statements\<close>

text \<open>An item is tagged when one of the policy's tags occurs in it.\<close>

definition tagged :: "policy \<Rightarrow> string \<Rightarrow> bool" where
  "tagged p i = (start_tag p \<in> set i \<or> end_tag p \<in> set i)"

text \<open>
  The invariant of the pattern cache: it holds no more entries than its bound allows
  (none for a bound below zero), and no key twice.
\<close>

definition cache_inv :: "'p RegexChecker \<Rightarrow> bool" where
  "cache_inv self =
     (length (cache self) \<le> nat (cache_size self) \<and> distinct (map fst (cache self)))"

text \<open>
  The triples that a call of \<open>fits\<close> looks up in the cache, in the order of the
  lookups: one for every tagged item that the loop reaches.
\<close>

fun RegexChecker_uses ::
    "(string \<Rightarrow> char \<Rightarrow> char \<Rightarrow> error + 'p) \<Rightarrow> ('p \<Rightarrow> string \<Rightarrow> bool) \<Rightarrow> policy \<Rightarrow> string
      \<Rightarrow> string list \<Rightarrow> 'p RegexChecker \<Rightarrow> cache_key list" where
  "RegexChecker_uses cr rm p what [] self = []"
| "RegexChecker_uses cr rm p what (i # rest) self =
     (if start_tag p \<notin> set i \<and> end_tag p \<notin> set i
      then (if i \<noteq> what then RegexChecker_uses cr rm p what rest self else [])
      else
        (i, start_tag p, end_tag p) #
        (case RegexChecker_compile cr i (start_tag p) (end_tag p) self of
           (Inl e, self') \<Rightarrow> []
         | (Inr pattern, self') \<Rightarrow>
             if rm pattern what then []
             else RegexChecker_uses cr rm p what rest self'))"

text \<open>A sequence of uses of \<open>self.compile\<close>, one triple after the other.\<close>

fun compile_all ::
    "(string \<Rightarrow> char \<Rightarrow> char \<Rightarrow> error + 'p) \<Rightarrow> cache_key list \<Rightarrow> 'p RegexChecker
      \<Rightarrow> 'p RegexChecker" where
  "compile_all cr [] self = self"
| "compile_all cr ((i, st, en) # ks) self =
     compile_all cr ks (snd (RegexChecker_compile cr i st en self))"

text \<open>A triple compiles when the compiler returns a pattern for it.\<close>

definition compiles :: "(string \<Rightarrow> char \<Rightarrow> char \<Rightarrow> error + 'p) \<Rightarrow> cache_key \<Rightarrow> bool" where
  "compiles cr k =
     (case k of (i, st, en) \<Rightarrow> (case cr i st en of Inl e \<Rightarrow> False | Inr pattern \<Rightarrow> True))"

text \<open>
  The \<open>n\<close> most recently used elements of a sequence of uses, the most recent one
  first: every element counts at its last use.
\<close>

definition most_recent :: "nat \<Rightarrow> 'a list \<Rightarrow> 'a list" where
  "most_recent n uses = take n (rev (remdups uses))"

text \<open>
  A cache kept by recency, for a history of uses: caching is on, the keys of the
  cache are the \<open>cache_size\<close> most recently used triples of the history that compile,
  the most recently used one first, and every entry holds the pattern that the
  compiler returns for its key.
\<close>

definition lru_state ::
    "(string \<Rightarrow> char \<Rightarrow> char \<Rightarrow> error + 'p) \<Rightarrow> cache_key list \<Rightarrow> 'p RegexChecker \<Rightarrow> bool" where
  "lru_state cr uses self =
     (0 < cache_size self
      \<and> map fst (cache self) = most_recent (nat (cache_size self)) (filter (compiles cr) uses)
      \<and> (\<forall>e \<in> set (cache self).
            (case fst e of (i, st, en) \<Rightarrow> cr i st en) = Inr (snd e)))"

text \<open>
  A pair of equal strings, in the words of the spec: a sequence of two elements (a
  list, a tuple or a string of two characters) whose elements are both strings and
  equal to each other.
\<close>

fun two_elements :: "pyval \<Rightarrow> (pyval \<times> pyval) option" where
  "two_elements (PList [a, b]) = Some (a, b)"
| "two_elements (PTuple [a, b]) = Some (a, b)"
| "two_elements (PStr [c, d]) = Some (PStr [c], PStr [d])"
| "two_elements v = None"

definition equal_string_pair :: "pyval \<Rightarrow> bool" where
  "equal_string_pair v =
     (case two_elements v of
        None \<Rightarrow> False
      | Some (a, b) \<Rightarrow> is_str a \<and> is_str b \<and> a = b)"

text \<open>The values that \<open>len\<close> accepts.\<close>

definition has_len :: "pyval \<Rightarrow> bool" where
  "has_len v = (case py_len v of Inl e \<Rightarrow> False | Inr n \<Rightarrow> True)"

text \<open>
  An item of a field as the string checkers compare it, in the words of the spec:
  without its first and last characters when the first is the start tag and the last
  is the end tag, and unchanged otherwise.
\<close>

definition stripped :: "policy \<Rightarrow> string \<Rightarrow> string" where
  "stripped p item =
     (if item \<noteq> [] \<and> hd item = start_tag p \<and> last item = end_tag p
      then butlast (tl item) else item)"

section \<open>Example inputs\<close>

text \<open>A policy with the tags \<open><\<close> and \<open>>\<close> whose field \<open>subjects\<close> holds the given items.\<close>

definition example_policy :: "string list \<Rightarrow> policy" where
  "example_policy items =
     \<lparr>start_tag = CHR ''<'', end_tag = CHR ''>'',
      attributes = (\<lambda>field. if field = ''subjects'' then Some items else None)\<rparr>"

text \<open>The key under which the cache stores an item of such a policy.\<close>

definition tag_key :: "string \<Rightarrow> cache_key" where
  "tag_key i = (i, CHR ''<'', CHR ''>'')"

text \<open>The patterns that \<open>compile_regex\<close> returns for \<open><a>\<close>, \<open><b>\<close>, \<open><c>\<close> and \<open><Dog[se]?>\<close>.\<close>

definition pattern_a :: regex where
  "pattern_a = Seq One (Seq (Chr CHR ''a'') (Seq One Eol))"

definition pattern_b :: regex where
  "pattern_b = Seq One (Seq (Chr CHR ''b'') (Seq One Eol))"

definition pattern_c :: regex where
  "pattern_c = Seq One (Seq (Chr CHR ''c'') (Seq One Eol))"

definition dog_pattern :: regex where
  "dog_pattern =
     Seq One
       (Seq (Seq (Chr CHR ''D'')
              (Seq (Chr CHR ''o'')
                (Seq (Chr CHR ''g'')
                  (Alt (Cls False [(CHR ''s'', CHR ''s''), (CHR ''e'', CHR ''e'')]) One))))
         (Seq One Eol))"

text \<open>
  A checker with room for two patterns after \<open><a>\<close> and then \<open><b>\<close> were compiled:
  the cache is full and \<open><a>\<close> is its least recently used entry.
\<close>

definition full_cache :: "regex RegexChecker" where
  "full_cache =
     \<lparr>cache_size = 2,
      cache = [(tag_key ''<b>'', pattern_b), (tag_key ''<a>'', pattern_a)],
      compile_calls = [tag_key ''<a>'', tag_key ''<b>''],
      log = []\<rparr>"

text \<open>
  A store that keeps its policies in a list, a store whose \<open>add\<close> fails, a subscriber
  that counts the policies it sees and a subscriber that fails, and the wrapper around
  the empty list store with one of these subscribers.
\<close>

definition list_store_add :: "nat \<Rightarrow> nat list \<Rightarrow> (error + nat) \<times> nat list" where
  "list_store_add policy s = (Inr (length s), s @ [policy])"

definition broken_store_add :: "nat \<Rightarrow> nat list \<Rightarrow> (error + nat) \<times> nat list" where
  "broken_store_add policy s = (Inl (StoreError ''down''), s)"

definition list_store_get :: "nat \<Rightarrow> nat list \<Rightarrow> (error + nat) \<times> nat list" where
  "list_store_get uid s = (if uid < length s then Inr (s ! uid) else Inl (StoreError ''missing''), s)"

definition list_store_get_all :: "int \<Rightarrow> int \<Rightarrow> nat list \<Rightarrow> (error + nat) \<times> nat list" where
  "list_store_get_all limit offset s =
     (Inr (length (take (nat limit) (drop (nat offset) s))), s)"

definition list_store_find :: "nat \<Rightarrow> unit option \<Rightarrow> nat list \<Rightarrow> (error + nat) \<times> nat list" where
  "list_store_find inquiry checker s = (Inr (count_list s inquiry), s)"

definition counting_observer :: "(nat list, nat) observer" where
  "counting_observer s w = (None, w + length s)"

definition failing_observer :: "(nat list, nat) observer" where
  "failing_observer s w = (Some (ObserverError ''boom''), w)"

definition watched_store :: "(nat list, nat) ObservableMutationStorage" where
  "watched_store = subscribe counting_observer (ObservableMutationStorage_init [] 0)"

definition badly_watched_store :: "(nat list, nat) ObservableMutationStorage" where
  "badly_watched_store = subscribe failing_observer (ObservableMutationStorage_init [] 0)"

section \<open>Properties of the conditions\<close>

text \<open>
  C10: for every request, \<open>StringPairsEqualCondition.satisfied([], request)\<close> returns
  true: the loop over an empty list of pairs rejects nothing.
\<close>

theorem C10_empty_pairs_satisfied:
  "StringPairsEqualCondition_satisfied (PList []) request = Inr True"
  by simp

section \<open>Properties of the regex checker\<close>

lemma RegexChecker_loop_append:
  "RegexChecker_loop cr rm p what (xs @ ys) self =
     (case RegexChecker_loop cr rm p what xs self of
        (None, self') \<Rightarrow> RegexChecker_loop cr rm p what ys self'
      | (Some r, self') \<Rightarrow> (Some r, self'))"
  by (induction xs arbitrary: self) (auto split: prod.splits sum.splits option.splits)

lemma RegexChecker_loop_literal:
  "\<forall>i \<in> set items. start_tag p \<notin> set i \<and> end_tag p \<notin> set i \<Longrightarrow>
   RegexChecker_loop cr rm p what items self =
     (if what \<in> set items then Some (Inr True) else None, self)"
  by (induction items) auto

lemma compile_raises:
  "RegexChecker_compile cr i st en self = (Inl e, self') \<Longrightarrow>
   cr i st en = Inl e \<and> self' = self\<lparr>compile_calls := compile_calls self @ [(i, st, en)]\<rparr>"
  by (auto simp: RegexChecker_compile_def Let_def split: if_splits option.splits sum.splits)

subsection \<open>The invariant of the cache\<close>

lemma length_filter_fst:
  "distinct (map fst xs) \<Longrightarrow> map_of xs k = Some v
   \<Longrightarrow> Suc (length (filter (\<lambda>e. fst e \<noteq> k) xs)) = length xs"
proof (induction xs)
  case Nil
  then show ?case by simp
next
  case (Cons x xs)
  show ?case
  proof (cases "fst x = k")
    case True
    with Cons.prems have "k \<notin> fst ` set xs" by auto
    then have "filter (\<lambda>e. fst e \<noteq> k) xs = xs"
      by (auto simp: filter_id_conv)
    with True show ?thesis by simp
  next
    case False
    with Cons show ?thesis by (cases x) auto
  qed
qed

lemma distinct_filter_fst: "distinct (map fst xs) \<Longrightarrow> distinct (map fst (filter P xs))"
  by (induction xs) auto

lemma distinct_take_fst: "distinct (map fst xs) \<Longrightarrow> distinct (map fst (take n xs))"
  by (simp add: take_map[symmetric])

lemma compile_off:
  "cache_size self \<le> 0 \<Longrightarrow>
   RegexChecker_compile cr i st en self =
     (cr i st en, self\<lparr>compile_calls := compile_calls self @ [(i, st, en)]\<rparr>)"
  by (simp add: RegexChecker_compile_def Let_def)

lemma compile_hit:
  "0 < cache_size self \<Longrightarrow> map_of (cache self) (i, st, en) = Some pat \<Longrightarrow>
   RegexChecker_compile cr i st en self =
     (Inr pat, self\<lparr>cache := ((i, st, en), pat) # filter (\<lambda>e. fst e \<noteq> (i, st, en)) (cache self)\<rparr>)"
  by (simp add: RegexChecker_compile_def Let_def)

lemma compile_miss_error:
  "0 < cache_size self \<Longrightarrow> map_of (cache self) (i, st, en) = None \<Longrightarrow> cr i st en = Inl e \<Longrightarrow>
   RegexChecker_compile cr i st en self =
     (Inl e, self\<lparr>compile_calls := compile_calls self @ [(i, st, en)]\<rparr>)"
  by (simp add: RegexChecker_compile_def Let_def)

lemma compile_miss_ok:
  "0 < cache_size self \<Longrightarrow> map_of (cache self) (i, st, en) = None \<Longrightarrow> cr i st en = Inr pat \<Longrightarrow>
   RegexChecker_compile cr i st en self =
     (Inr pat, self\<lparr>compile_calls := compile_calls self @ [(i, st, en)],
                    cache := take (nat (cache_size self)) (((i, st, en), pat) # cache self)\<rparr>)"
  by (simp add: RegexChecker_compile_def Let_def)

lemma compile_cache_size: "cache_size (snd (RegexChecker_compile cr i st en self)) = cache_size self"
  by (auto simp: RegexChecker_compile_def Let_def split: option.splits sum.splits)

lemma compile_cache_inv:
  assumes "cache_inv self"
  shows "cache_inv (snd (RegexChecker_compile cr i st en self))"
proof (cases "cache_size self \<le> 0")
  case True
  with assms show ?thesis by (simp add: compile_off cache_inv_def)
next
  case False
  then have pos: "0 < cache_size self" by simp
  from assms have d: "distinct (map fst (cache self))" by (simp add: cache_inv_def)
  show ?thesis
  proof (cases "map_of (cache self) (i, st, en)")
    case None
    then have notin: "(i, st, en) \<notin> fst ` set (cache self)" by (simp add: map_of_eq_None_iff)
    show ?thesis
    proof (cases "cr i st en")
      case (Inl e)
      with assms show ?thesis by (simp add: compile_miss_error[OF pos None] cache_inv_def)
    next
      case (Inr pat)
      from d notin have "distinct (map fst (((i, st, en), pat) # cache self))" by simp
      then have "distinct (map fst (take (nat (cache_size self)) (((i, st, en), pat) # cache self)))"
        by (rule distinct_take_fst)
      with Inr show ?thesis
        by (simp add: compile_miss_ok[OF pos None] cache_inv_def del: take_Suc_Cons)
    qed
  next
    case (Some pat)
    have "(i, st, en) \<notin> fst ` set (filter (\<lambda>e. fst e \<noteq> (i, st, en)) (cache self))"
      by auto
    with length_filter_fst[OF d Some] assms show ?thesis
      by (simp add: compile_hit[OF pos Some] cache_inv_def distinct_filter_fst d del: set_filter)
  qed
qed

lemma loop_cache_inv:
  "cache_inv self \<Longrightarrow> cache_inv (snd (RegexChecker_loop cr rm p what items self))"
proof (induction items arbitrary: self)
  case Nil
  then show ?case by simp
next
  case (Cons i items)
  from compile_cache_inv[OF Cons.prems, of cr i "start_tag p" "end_tag p"]
  have c: "cache_inv (snd (RegexChecker_compile cr i (start_tag p) (end_tag p) self))" .
  then have l: "cache_inv (snd (RegexChecker_compile cr i (start_tag p) (end_tag p) self)\<lparr>log := lg\<rparr>)" for lg
    by (simp add: cache_inv_def)
  show ?case
    using Cons.IH[OF Cons.prems] Cons.IH[OF c] c l Cons.prems
    by (auto split: prod.splits sum.splits)
qed

lemma loop_cache_size:
  "cache_size (snd (RegexChecker_loop cr rm p what items self)) = cache_size self"
proof (induction items arbitrary: self)
  case Nil
  then show ?case by simp
next
  case (Cons i items)
  show ?case
    using Cons.IH[of self] Cons.IH[of "snd (RegexChecker_compile cr i (start_tag p) (end_tag p) self)"]
      compile_cache_size[of cr i "start_tag p" "end_tag p" self]
    by (auto split: prod.splits sum.splits)
qed

lemma fits_snd:
  "snd (RegexChecker_fits cr rm self p field what) =
   snd (RegexChecker_loop cr rm p what (getattr_field p field) self)"
  by (simp add: RegexChecker_fits_def split: prod.splits option.splits)

lemma compile_keeps_log: "log (snd (RegexChecker_compile cr i st en self)) = log self"
  by (auto simp: RegexChecker_compile_def Let_def split: option.splits sum.splits)

lemma take_length_Cons: "xs \<noteq> [] \<Longrightarrow> take (length xs) (x # xs) = x # butlast xs"
  by (cases xs rule: rev_cases) auto

lemma compile_evicts:
  assumes "0 < cache_size self" and "length (cache self) = nat (cache_size self)"
    and "map_of (cache self) (i, st, en) = None" and "cr i st en = Inr pat"
  shows "cache (snd (RegexChecker_compile cr i st en self)) = ((i, st, en), pat) # butlast (cache self)"
proof -
  from assms(1,2) have "cache self \<noteq> []" by auto
  from take_length_Cons[OF this] assms(2)
  have "take (nat (cache_size self)) (((i, st, en), pat) # cache self) = ((i, st, en), pat) # butlast (cache self)"
    by (simp del: take_Suc_Cons)
  then show ?thesis
    by (simp add: compile_miss_ok[where cr=cr, OF assms(1,3,4)] del: take_Suc_Cons)
qed

lemma map_of_butlast:
  "xs \<noteq> [] \<Longrightarrow> fst (last xs) \<noteq> k \<Longrightarrow> map_of (butlast xs) k = map_of xs k"
  by (induction xs) auto

lemma map_of_filter_other:
  "k \<noteq> k' \<Longrightarrow> map_of (filter (\<lambda>e. fst e \<noteq> k') xs) k = map_of xs k"
  by (induction xs) auto

lemma compile_keeps_entry:
  assumes inv: "cache_inv self" and k: "map_of (cache self) k = Some pat"
    and room: "length (cache self) < nat (cache_size self) \<or> fst (last (cache self)) \<noteq> k"
  shows "map_of (cache (snd (RegexChecker_compile cr i st en self))) k = Some pat"
proof -
  from k have ne: "cache self \<noteq> []" by auto
  with inv have pos: "0 < cache_size self"
    by (cases "cache self") (auto simp: cache_inv_def)
  show ?thesis
  proof (cases "map_of (cache self) (i, st, en)")
    case (Some pat')
    show ?thesis
    proof (cases "k = (i, st, en)")
      case True
      with k Some show ?thesis by (simp add: compile_hit[OF pos Some])
    next
      case False
      with k show ?thesis by (simp add: compile_hit[OF pos Some] map_of_filter_other)
    qed
  next
    case None
    with k have diff: "k \<noteq> (i, st, en)" by auto
    show ?thesis
    proof (cases "cr i st en")
      case (Inl e)
      with k show ?thesis by (simp add: compile_miss_error[where cr=cr, OF pos None Inl])
    next
      case (Inr new)
      have "map_of (take (nat (cache_size self)) (((i, st, en), new) # cache self)) k = Some pat"
      proof (cases "length (cache self) < nat (cache_size self)")
        case True
        then have "take (nat (cache_size self)) (((i, st, en), new) # cache self) = ((i, st, en), new) # cache self"
          by simp
        with k diff show ?thesis by simp
      next
        case False
        with inv have full: "length (cache self) = nat (cache_size self)" by (simp add: cache_inv_def)
        from False room have "fst (last (cache self)) \<noteq> k" by simp
        from map_of_butlast[OF ne this] k have "map_of (butlast (cache self)) k = Some pat" by simp
        with diff take_length_Cons[OF ne, of "((i, st, en), new)"] full show ?thesis
          by (simp del: take_Suc_Cons)
      qed
      then show ?thesis by (simp add: compile_miss_ok[where cr=cr, OF pos None Inr] del: take_Suc_Cons)
    qed
  qed
qed

lemma loop_tagged:
  "tagged p i \<Longrightarrow>
   RegexChecker_loop cr rm p what (i # rest) self =
     (case RegexChecker_compile cr i (start_tag p) (end_tag p) self of
        (Inl e, self') \<Rightarrow>
          if e = InvalidPatternError
          then (Some (Inr False), self'\<lparr>log := log self' @ [i]\<rparr>)
          else (Some (Inl e), self')
      | (Inr pattern, self') \<Rightarrow>
          if rm pattern what then (Some (Inr True), self')
          else RegexChecker_loop cr rm p what rest self')"
  by (auto simp: tagged_def)

lemma hit_keys:
  "k \<in> fst ` set xs \<Longrightarrow> fst ` set ((k, pat) # filter (\<lambda>e. fst e \<noteq> k) xs) = fst ` set xs"
  by auto

lemma compile_cached:
  assumes "0 < cache_size self" and "(i, st, en) \<in> fst ` set (cache self)"
  shows "\<exists>pat self'. RegexChecker_compile cr i st en self = (Inr pat, self')
           \<and> compile_calls self' = compile_calls self
           \<and> cache_size self' = cache_size self
           \<and> fst ` set (cache self') = fst ` set (cache self)"
proof -
  from assms(2) obtain pat where hit: "map_of (cache self) (i, st, en) = Some pat"
    by (metis map_of_eq_None_iff not_Some_eq)
  show ?thesis
    using hit_keys[OF assms(2), of pat]
    by (simp add: compile_hit[OF assms(1) hit] del: set_filter list.set)
qed

lemma loop_all_cached:
  "0 < cache_size self \<Longrightarrow>
   \<forall>i \<in> set items. tagged p i \<longrightarrow> (i, start_tag p, end_tag p) \<in> fst ` set (cache self) \<Longrightarrow>
   compile_calls (snd (RegexChecker_loop cr rm p what items self)) = compile_calls self
   \<and> fst ` set (cache (snd (RegexChecker_loop cr rm p what items self))) = fst ` set (cache self)"
proof (induction items arbitrary: self)
  case Nil
  then show ?case by simp
next
  case (Cons i items)
  show ?case
  proof (cases "tagged p i")
    case False
    with Cons show ?thesis by (auto simp: tagged_def)
  next
    case True
    with Cons.prems(2) have "(i, start_tag p, end_tag p) \<in> fst ` set (cache self)" by simp
    from compile_cached[OF Cons.prems(1) this, of cr]
    obtain pat self' where c: "RegexChecker_compile cr i (start_tag p) (end_tag p) self = (Inr pat, self')"
      and calls: "compile_calls self' = compile_calls self"
      and size: "cache_size self' = cache_size self"
      and keys: "fst ` set (cache self') = fst ` set (cache self)"
      by blast
    have "0 < cache_size self'" using Cons.prems(1) size by simp
    moreover have "\<forall>j \<in> set items. tagged p j \<longrightarrow> (j, start_tag p, end_tag p) \<in> fst ` set (cache self')"
      using Cons.prems(2) keys by simp
    ultimately have IH: "compile_calls (snd (RegexChecker_loop cr rm p what items self')) = compile_calls self'
      \<and> fst ` set (cache (snd (RegexChecker_loop cr rm p what items self'))) = fst ` set (cache self')"
      by (rule Cons.IH)
    show ?thesis
      using c keys calls IH by (cases "rm pat what") (simp_all add: loop_tagged[OF True] del: RegexChecker_loop.simps)
  qed
qed

lemma loop_never_raises:
  "\<forall>i st en e. cr i st en = Inl e \<longrightarrow> e = InvalidPatternError \<Longrightarrow>
   fst (RegexChecker_loop cr rm p what items self) \<in> {None, Some (Inr True), Some (Inr False)}"
proof (induction items arbitrary: self)
  case Nil
  then show ?case by simp
next
  case (Cons i items)
  show ?case
    using Cons.IH[OF Cons.prems] Cons.prems
    by (auto split: prod.splits sum.splits dest!: compile_raises)
qed

text \<open>
  C1: when the scan of the field's list reaches a tagged item whose compilation raises
  \<open>InvalidPatternError\<close>, \<open>RegexChecker.fits\<close> logs the item and returns false at once:
  the error is not raised to the caller, and whatever follows the item in the list is
  not attempted (the final state is the state right after the failed compilation, with
  the log entry added; the compiler was called once more, for this item, and the cache
  is as it was).
\<close>

theorem C1_compile_failure_aborts:
  assumes "attributes p field = Some (xs @ i # rest)"
    and "RegexChecker_loop cr rm p what xs self = (None, self1)"
    and "tagged p i"
    and "RegexChecker_compile cr i (start_tag p) (end_tag p) self1 = (Inl InvalidPatternError, self2)"
  shows "RegexChecker_fits cr rm self p field what = (Inr False, self2\<lparr>log := log self2 @ [i]\<rparr>)
     \<and> compile_calls self2 = compile_calls self1 @ [(i, start_tag p, end_tag p)]
     \<and> cache self2 = cache self1 \<and> log self2 = log self1"
proof -
  from compile_raises[OF assms(4)]
  have s2: "self2 = self1\<lparr>compile_calls := compile_calls self1 @ [(i, start_tag p, end_tag p)]\<rparr>"
    by simp
  have "RegexChecker_loop cr rm p what (xs @ i # rest) self
        = (Some (Inr False), self2\<lparr>log := log self2 @ [i]\<rparr>)"
    using assms(2,4) by (simp add: RegexChecker_loop_append loop_tagged[OF assms(3)] del: RegexChecker_loop.simps)
  with assms(1) s2 show ?thesis
    by (simp add: RegexChecker_fits_def getattr_field_def)
qed

text \<open>
  The policy lists \<open>cat\<close>, the unbalanced \<open><a\<close> and \<open><b>\<close>: the call for \<open>dog\<close>
  returns false, logs \<open><a\<close> and never compiles \<open><b>\<close>.
\<close>

theorem C1_compile_failure_aborts_witness:
  "RegexChecker_fits compile_regex re_match (RegexChecker_init 1024)
     (example_policy [''cat'', ''<a'', ''<b>'']) ''subjects'' ''dog''
   = (Inr False,
      \<lparr>cache_size = 1024, cache = [], compile_calls = [(''<a'', CHR ''<'', CHR ''>'')],
       log = [''<a'']\<rparr>)"
proof -
  let ?p = "example_policy [''cat'', ''<a'', ''<b>'']"
  let ?s = "RegexChecker_init 1024 :: regex RegexChecker"
  have h1: "attributes ?p ''subjects'' = Some ([''cat''] @ ''<a'' # [''<b>''])"
    by (simp add: example_policy_def)
  have h2: "RegexChecker_loop compile_regex re_match ?p ''dog'' [''cat''] ?s = (None, ?s)"
    by (simp add: example_policy_def)
  have h3: "tagged ?p ''<a''"
    by (simp add: tagged_def example_policy_def)
  have h4: "RegexChecker_compile compile_regex ''<a'' (start_tag ?p) (end_tag ?p) ?s
            = (Inl InvalidPatternError, ?s\<lparr>compile_calls := [(''<a'', CHR ''<'', CHR ''>'')]\<rparr>)"
    by (simp add: RegexChecker_compile_def RegexChecker_init_def example_policy_def compile_regex_def)
  from C1_compile_failure_aborts[OF h1 h2 h3 h4] show ?thesis
    by (simp add: RegexChecker_init_def)
qed

text \<open>
  C5: for a policy whose field holds only literal items (no item contains the start
  tag or the end tag) and for every string \<open>what\<close>, \<open>RegexChecker.fits\<close> is true exactly
  when \<open>what\<close> is an element of the list, and the checker is left as it was; in
  particular a missing or empty field gives false.
\<close>

theorem C5_literal_items:
  assumes "\<forall>i \<in> set (getattr_field p field). \<not> tagged p i"
  shows "RegexChecker_fits cr rm self p field what
           = (Inr (what \<in> set (getattr_field p field)), self)
     \<and> (attributes p field = None \<or> attributes p field = Some []
          \<longrightarrow> RegexChecker_fits cr rm self p field what = (Inr False, self))"
proof -
  from assms have "\<forall>i \<in> set (getattr_field p field). start_tag p \<notin> set i \<and> end_tag p \<notin> set i"
    by (simp add: tagged_def)
  from RegexChecker_loop_literal[OF this, where cr=cr and rm=rm and what=what and self=self]
  have "RegexChecker_fits cr rm self p field what = (Inr (what \<in> set (getattr_field p field)), self)"
    by (simp add: RegexChecker_fits_def)
  then show ?thesis by (auto simp: getattr_field_def)
qed

theorem C5_literal_items_witness:
  "RegexChecker_fits compile_regex re_match (RegexChecker_init 1024)
     (example_policy [''cat'', ''dog'']) ''subjects'' ''dog'' = (Inr True, RegexChecker_init 1024)
   \<and> RegexChecker_fits compile_regex re_match (RegexChecker_init 1024)
     (example_policy [''cat'', ''dog'']) ''subjects'' ''do'' = (Inr False, RegexChecker_init 1024)
   \<and> RegexChecker_fits compile_regex re_match (RegexChecker_init 1024)
     (example_policy [''cat'', ''dog'']) ''actions'' ''dog'' = (Inr False, RegexChecker_init 1024)"
proof -
  let ?p = "example_policy [''cat'', ''dog'']"
  have g: "getattr_field ?p ''subjects'' = [''cat'', ''dog'']" "getattr_field ?p ''actions'' = []"
    by (simp_all add: getattr_field_def example_policy_def)
  have h1: "\<forall>i \<in> set (getattr_field ?p ''subjects''). \<not> tagged ?p i"
    unfolding g by (simp add: tagged_def example_policy_def)
  have h2: "\<forall>i \<in> set (getattr_field ?p ''actions''). \<not> tagged ?p i"
    unfolding g by simp
  from C5_literal_items[OF h1, of compile_regex re_match "RegexChecker_init 1024" "''dog''"]
    C5_literal_items[OF h1, of compile_regex re_match "RegexChecker_init 1024" "''do''"]
    C5_literal_items[OF h2, of compile_regex re_match "RegexChecker_init 1024" "''dog''"]
  show ?thesis by (simp add: g)
qed

subsection \<open>The matcher finds the prefixes that the pattern matches\<close>

text \<open>
  The derivative matcher agrees with the meaning of patterns given by \<open>matches\<close>:
  \<open>re_match\<close> holds exactly when the pattern matches some prefix of the value, read
  from its start.
\<close>

inductive_simps matches_Zero: "matches b Zero u v"
inductive_simps matches_One: "matches b One u v"
inductive_simps matches_Chr: "matches b (Chr c) u v"
inductive_simps matches_Any: "matches b Any u v"
inductive_simps matches_Cls: "matches b (Cls neg rs) u v"
inductive_simps matches_Seq: "matches b (Seq r s) u v"
inductive_simps matches_Alt: "matches b (Alt r s) u v"
inductive_simps matches_Star: "matches b (Star r) u v"
inductive_simps matches_Bol: "matches b Bol u v"
inductive_simps matches_Eol: "matches b Eol u v"

lemmas matches_atoms = matches_Zero matches_One matches_Chr matches_Any matches_Cls
  matches_Bol matches_Eol

lemma nullable_matches: "nullable b v r \<longleftrightarrow> matches b r [] v"
proof (induction r)
  case (Seq r s)
  then show ?case by (auto simp: matches_Seq)
next
  case (Alt r s)
  then show ?case by (simp add: matches_Alt)
next
  case (Star r)
  then show ?case by (simp add: m_Star0)
qed (auto simp: matches_atoms)

lemma matches_Seq_iff:
  "matches b (Seq r s) u v \<longleftrightarrow>
     (\<exists>u1 u2. u = u1 @ u2 \<and> matches b r u1 (u2 @ v) \<and> matches (b \<and> u1 = []) s u2 v)"
  by (rule matches_Seq)

lemma matches_Star_iff:
  "matches b (Star r) u v \<longleftrightarrow>
     u = [] \<or> (\<exists>u1 u2. u = u1 @ u2 \<and> u1 \<noteq> [] \<and> matches b r u1 (u2 @ v)
                  \<and> matches False (Star r) u2 v)"
  by (rule matches_Star)

lemma matches_Seq_Cons:
  "matches b (Seq r s) (c # u) v \<longleftrightarrow>
     (matches b r [] (c # u @ v) \<and> matches b s (c # u) v)
     \<or> (\<exists>u1 u2. u = u1 @ u2 \<and> matches b r (c # u1) (u2 @ v) \<and> matches False s u2 v)"
  (is "?L \<longleftrightarrow> ?R")
proof
  assume ?L
  then obtain u1 u2 where split: "c # u = u1 @ u2" and r: "matches b r u1 (u2 @ v)"
    and s: "matches (b \<and> u1 = []) s u2 v"
    unfolding matches_Seq_iff by blast
  show ?R
  proof (cases u1)
    case Nil
    with split have "u2 = c # u" by simp
    with Nil r s show ?thesis by simp
  next
    case (Cons d u1')
    with split have "d = c" "u = u1' @ u2" by simp_all
    with Cons r s show ?thesis by auto
  qed
next
  assume ?R
  then show ?L
  proof
    assume "matches b r [] (c # u @ v) \<and> matches b s (c # u) v"
    then have "matches b r [] ((c # u) @ v)" "matches (b \<and> ([]::string) = []) s (c # u) v"
      by simp_all
    from m_Seq[OF this] show ?L by simp
  next
    assume "\<exists>u1 u2. u = u1 @ u2 \<and> matches b r (c # u1) (u2 @ v) \<and> matches False s u2 v"
    then obtain u1 u2 where u: "u = u1 @ u2" and "matches b r (c # u1) (u2 @ v)"
      and "matches False s u2 v"
      by blast
    then have "matches b r (c # u1) (u2 @ v)" "matches (b \<and> c # u1 = []) s u2 v"
      by simp_all
    from m_Seq[OF this] u show ?L by simp
  qed
qed

lemma matches_Star_Cons:
  "matches b (Star r) (c # u) v \<longleftrightarrow>
     (\<exists>u1 u2. u = u1 @ u2 \<and> matches b r (c # u1) (u2 @ v) \<and> matches False (Star r) u2 v)"
  (is "?L \<longleftrightarrow> ?R")
proof
  assume ?L
  then obtain u1 u2 where split: "c # u = u1 @ u2" and ne: "u1 \<noteq> []"
    and r: "matches b r u1 (u2 @ v)" and s: "matches False (Star r) u2 v"
    unfolding matches_Star_iff[of b r "c # u"] by blast
  from ne obtain d u1' where u1: "u1 = d # u1'" by (cases u1) auto
  with split have "d = c" "u = u1' @ u2" by simp_all
  with u1 r s show ?R by auto
next
  assume ?R
  then obtain u1 u2 where u: "u = u1 @ u2" and r: "matches b r (c # u1) (u2 @ v)"
    and s: "matches False (Star r) u2 v"
    by blast
  have "c # u1 \<noteq> []" by simp
  from m_StarS[OF this r s] u show ?L by simp
qed

lemma matches_deriv_Seq:
  assumes IH: "\<And>u v. matches False (deriv b (c # u @ v) c r) u v \<longleftrightarrow> matches b r (c # u) v"
  shows "matches False (Seq (deriv b (c # u @ v) c r) s) u v \<longleftrightarrow>
        (\<exists>u1 u2. u = u1 @ u2 \<and> matches b r (c # u1) (u2 @ v) \<and> matches False s u2 v)"
  (is "?L \<longleftrightarrow> ?R")
proof
  assume ?L
  then obtain u1 u2 where u: "u = u1 @ u2"
    and d: "matches False (deriv b (c # u @ v) c r) u1 (u2 @ v)" and s: "matches False s u2 v"
    unfolding matches_Seq_iff by auto
  from d u have "matches False (deriv b (c # u1 @ (u2 @ v)) c r) u1 (u2 @ v)" by simp
  then have "matches b r (c # u1) (u2 @ v)" by (simp only: IH)
  with u s show ?R by blast
next
  assume ?R
  then obtain u1 u2 where u: "u = u1 @ u2" and r: "matches b r (c # u1) (u2 @ v)"
    and s: "matches False s u2 v"
    by blast
  from r have "matches False (deriv b (c # u1 @ (u2 @ v)) c r) u1 (u2 @ v)" by (simp only: IH)
  with u have "matches False (deriv b (c # u @ v) c r) u1 (u2 @ v)" by simp
  moreover from s have "matches (False \<and> u1 = []) s u2 v" by simp
  ultimately have "matches False (Seq (deriv b (c # u @ v) c r) s) (u1 @ u2) v"
    by (rule m_Seq)
  with u show ?L by simp
qed

lemma deriv_matches:
  "matches False (deriv b (c # u @ v) c r) u v \<longleftrightarrow> matches b r (c # u) v"
proof (induction r arbitrary: u v)
  case (Seq r s)
  show ?case
    using Seq.IH(2)[of u v] matches_deriv_Seq[of b c r u v s, OF Seq.IH(1)]
    by (simp add: matches_Alt matches_Zero matches_Seq_Cons nullable_matches
          del: matches_Seq) blast
next
  case (Alt r s)
  then show ?case by (simp add: matches_Alt)
next
  case (Star r)
  show ?case
    using matches_deriv_Seq[of b c r u v "Star r", OF Star.IH]
    by (simp add: matches_Star_Cons)
qed (auto simp: matches_atoms)

lemma prefix_split_Cons:
  "(\<exists>u v. c # cs = u @ v \<and> P u v) \<longleftrightarrow>
     P [] (c # cs) \<or> (\<exists>u v. cs = u @ v \<and> P (c # u) v)"
  (is "?L \<longleftrightarrow> ?R")
proof
  assume ?L
  then obtain u v where split: "c # cs = u @ v" and p: "P u v" by blast
  show ?R
  proof (cases u)
    case Nil
    with split p show ?thesis by simp
  next
    case (Cons d u')
    with split have "d = c" "cs = u' @ v" by simp_all
    with Cons p show ?thesis by blast
  qed
next
  assume ?R
  then show ?L
  proof
    assume "P [] (c # cs)"
    then have "c # cs = [] @ (c # cs) \<and> P [] (c # cs)" by simp
    then show ?L by blast
  next
    assume "\<exists>u v. cs = u @ v \<and> P (c # u) v"
    then obtain u v where "cs = u @ v" "P (c # u) v" by blast
    then have "c # cs = (c # u) @ v \<and> P (c # u) v" by simp
    then show ?L by blast
  qed
qed

lemma match_prefix_matches:
  "match_prefix b r w \<longleftrightarrow> (\<exists>u v. w = u @ v \<and> matches b r u v)"
proof (induction w arbitrary: b r)
  case Nil
  then show ?case by (simp add: nullable_matches)
next
  case (Cons c cs)
  have d: "(\<exists>u v. cs = u @ v \<and> matches False (deriv b (c # cs) c r) u v)
       \<longleftrightarrow> (\<exists>u v. cs = u @ v \<and> matches b r (c # u) v)"
  proof -
    have "matches False (deriv b (c # cs) c r) u v \<longleftrightarrow> matches b r (c # u) v"
      if "cs = u @ v" for u v
      using deriv_matches[of b c u v r] that by simp
    then show ?thesis by blast
  qed
  have "match_prefix b r (c # cs) \<longleftrightarrow>
        matches b r [] (c # cs) \<or> (\<exists>u v. cs = u @ v \<and> matches b r (c # u) v)"
    by (simp add: Cons.IH nullable_matches d)
  then show ?case
    by (simp only: prefix_split_Cons[where P = "matches b r"])
qed

lemma re_match_prefix:
  "re_match pattern what \<longleftrightarrow> (\<exists>u v. what = u @ v \<and> matches True pattern u v)"
  by (simp add: re_match_def match_prefix_matches)

subsection \<open>The modelled compiler on the example patterns\<close>

lemmas engine_defs = compile_regex_def parse_regex_def push_item_def close_frame_def repeat_def
  class_this_def class_range_def alnum_def

lemma compile_dog: "compile_regex ''<Dog[se]?>'' CHR ''<'' CHR ''>'' = Inr dog_pattern"
  by (simp add: engine_defs dog_pattern_def)

lemma match_dog:
  "re_match dog_pattern ''Dog''" "re_match dog_pattern ''Doge''" "re_match dog_pattern ''Dogs''"
  "\<not> re_match dog_pattern ''Dogger''"
  by (simp_all add: re_match_def dog_pattern_def in_ranges_def newline_def)

lemma compile_abc:
  "compile_regex ''<a>'' CHR ''<'' CHR ''>'' = Inr pattern_a"
  "compile_regex ''<b>'' CHR ''<'' CHR ''>'' = Inr pattern_b"
  "compile_regex ''<c>'' CHR ''<'' CHR ''>'' = Inr pattern_c"
  "compile_regex ''<a'' CHR ''<'' CHR ''>'' = Inl InvalidPatternError"
  by (simp_all add: engine_defs pattern_a_def pattern_b_def pattern_c_def)

text \<open>
  C6: when the scan reaches a tagged item that compiles, \<open>RegexChecker.fits\<close> accepts
  the value if and only if \<open>re.match\<close>, which is anchored at the start of the value,
  matches the compiled pattern; on a match it returns true at once, otherwise it goes
  on with the rest of the list, so that for a field with this single item the result
  is the result of the match.  With the tags \<open><\<close> and \<open>>\<close> and the field value
  \<open>[<Dog[se]?>]\<close>, \<open>fits\<close> is true for \<open>Dog\<close>, \<open>Doge\<close> and \<open>Dogs\<close> and false for
  \<open>Dogger\<close>.
\<close>

theorem C6_tagged_item_matches:
  "(attributes p field = Some (xs @ i # rest)
      \<and> RegexChecker_loop cr rm p what xs self = (None, self1)
      \<and> tagged p i
      \<and> RegexChecker_compile cr i (start_tag p) (end_tag p) self1 = (Inr pattern, self2)
    \<longrightarrow> RegexChecker_fits cr rm self p field what =
          (if rm pattern what then (Inr True, self2)
           else (case RegexChecker_loop cr rm p what rest self2 of
                   (None, self') \<Rightarrow> (Inr False, self')
                 | (Some r, self') \<Rightarrow> (r, self'))))
   \<and> (attributes p field = Some [i] \<and> tagged p i
      \<and> RegexChecker_compile cr i (start_tag p) (end_tag p) self = (Inr pattern, self2)
    \<longrightarrow> RegexChecker_fits cr rm self p field what = (Inr (rm pattern what), self2))
   \<and> fst (RegexChecker_fits compile_regex re_match (RegexChecker_init 1024)
            (example_policy [''<Dog[se]?>'']) ''subjects'' ''Dog'') = Inr True
   \<and> fst (RegexChecker_fits compile_regex re_match (RegexChecker_init 1024)
            (example_policy [''<Dog[se]?>'']) ''subjects'' ''Doge'') = Inr True
   \<and> fst (RegexChecker_fits compile_regex re_match (RegexChecker_init 1024)
            (example_policy [''<Dog[se]?>'']) ''subjects'' ''Dogs'') = Inr True
   \<and> fst (RegexChecker_fits compile_regex re_match (RegexChecker_init 1024)
            (example_policy [''<Dog[se]?>'']) ''subjects'' ''Dogger'') = Inr False"
proof -
  have general: "RegexChecker_fits cr rm self p field what =
          (if rm pattern what then (Inr True, self2)
           else (case RegexChecker_loop cr rm p what rest self2 of
                   (None, self') \<Rightarrow> (Inr False, self')
                 | (Some r, self') \<Rightarrow> (r, self')))"
    if "attributes p field = Some (xs @ i # rest)"
      and "RegexChecker_loop cr rm p what xs self = (None, self1)"
      and "tagged p i"
      and "RegexChecker_compile cr i (start_tag p) (end_tag p) self1 = (Inr pattern, self2)"
    for xs rest self1
    using that(1,2,4)
    by (simp add: RegexChecker_fits_def getattr_field_def RegexChecker_loop_append
          loop_tagged[OF that(3)] del: RegexChecker_loop.simps)
  have single: "RegexChecker_fits cr rm self p field what = (Inr (rm pattern what), self2)"
    if "attributes p field = Some [i]" and "tagged p i"
      and "RegexChecker_compile cr i (start_tag p) (end_tag p) self = (Inr pattern, self2)"
    using general[of "[]" "[]" self] that by simp
  let ?p = "example_policy [''<Dog[se]?>'']"
  let ?s = "RegexChecker_init 1024 :: regex RegexChecker"
  have t: "tagged ?p ''<Dog[se]?>''"
    by (simp add: tagged_def example_policy_def)
  have l: "RegexChecker_loop compile_regex re_match ?p w [''<Dog[se]?>''] ?s =
       (if re_match dog_pattern w then Some (Inr True) else None,
        ?s\<lparr>compile_calls := [(''<Dog[se]?>'', CHR ''<'', CHR ''>'')],
            cache := [((''<Dog[se]?>'', CHR ''<'', CHR ''>''), dog_pattern)]\<rparr>)" for w
    by (subst loop_tagged[OF t])
       (simp add: RegexChecker_compile_def Let_def RegexChecker_init_def compile_dog example_policy_def)
  have dog: "fst (RegexChecker_fits compile_regex re_match ?s ?p ''subjects'' w) = Inr (re_match dog_pattern w)" for w
    using l[of w] by (simp add: RegexChecker_fits_def getattr_field_def example_policy_def del: RegexChecker_loop.simps)
  show ?thesis
    using general single by (simp add: dog match_dog)
qed

subsection \<open>The cache keeps the most recently used patterns\<close>

lemma remdups_snoc: "remdups (xs @ [k]) = filter (\<lambda>x. x \<noteq> k) (remdups xs) @ [k]"
  by (induction xs) auto

lemma most_recent_snoc:
  "0 < n \<Longrightarrow>
   most_recent n (us @ [k]) = k # take (n - 1) (filter (\<lambda>x. x \<noteq> k) (rev (remdups us)))"
  by (cases n) (simp_all add: most_recent_def remdups_snoc rev_filter)

lemma take_filter_absent:
  "k \<notin> set (take m xs) \<Longrightarrow> take m (filter (\<lambda>x. x \<noteq> k) xs) = take m xs"
proof (induction xs arbitrary: m)
  case Nil
  then show ?case by simp
next
  case (Cons x xs)
  then show ?case by (cases m) auto
qed

lemma filter_take_present:
  "distinct xs \<Longrightarrow> k \<in> set (take n xs) \<Longrightarrow>
   filter (\<lambda>x. x \<noteq> k) (take n xs) = take (n - 1) (filter (\<lambda>x. x \<noteq> k) xs)"
proof (induction xs arbitrary: n)
  case Nil
  then show ?case by simp
next
  case (Cons x xs)
  from Cons.prems(2) obtain m where n: "n = Suc m" by (cases n) auto
  show ?case
  proof (cases "x = k")
    case True
    with Cons.prems(1) have "k \<notin> set xs" by simp
    then have "filter (\<lambda>x. x \<noteq> k) xs = xs" "filter (\<lambda>x. x \<noteq> k) (take m xs) = take m xs"
      by (auto simp: filter_id_conv dest: in_set_takeD)
    with True n show ?thesis by simp
  next
    case False
    with Cons.prems(2) n have in_rest: "k \<in> set (take m xs)" by auto
    then obtain m' where m: "m = Suc m'" by (cases m) auto
    from Cons.IH[OF _ in_rest] Cons.prems(1)
    have "filter (\<lambda>x. x \<noteq> k) (take m xs) = take (m - 1) (filter (\<lambda>x. x \<noteq> k) xs)"
      by simp
    with False n m show ?thesis by simp
  qed
qed


lemma lru_state_init: "0 < n \<Longrightarrow> lru_state cr [] (RegexChecker_init n)"
  by (simp add: lru_state_def RegexChecker_init_def most_recent_def)

lemma map_fst_filter_key:
  "map fst (filter (\<lambda>e. fst e \<noteq> k) xs) = filter (\<lambda>x. x \<noteq> k) (map fst xs)"
  by (induction xs) auto

lemma lru_state_compile:
  assumes "lru_state cr uses self"
  shows "lru_state cr (uses @ [(i, st, en)]) (snd (RegexChecker_compile cr i st en self))"
proof -
  let ?k = "(i, st, en)"
  let ?n = "nat (cache_size self)"
  let ?us = "filter (compiles cr) uses"
  let ?R = "rev (remdups ?us)"
  from assms have pos: "0 < cache_size self"
    and keys: "map fst (cache self) = take ?n ?R"
    and vals: "\<forall>e \<in> set (cache self). (case fst e of (i, st, en) \<Rightarrow> cr i st en) = Inr (snd e)"
    by (simp_all add: lru_state_def most_recent_def)
  from pos have n: "0 < ?n" by simp
  have dist: "distinct ?R" by simp
  show ?thesis
  proof (cases "cr i st en")
    case (Inl e)
    then have no: "\<not> compiles cr ?k" by (simp add: compiles_def)
    have "?k \<notin> fst ` set (cache self)"
    proof
      assume "?k \<in> fst ` set (cache self)"
      then obtain e' where "e' \<in> set (cache self)" "fst e' = ?k" by auto
      with vals have "cr i st en = Inr (snd e')" by fastforce
      with Inl show False by simp
    qed
    then have miss: "map_of (cache self) ?k = None" by (simp add: map_of_eq_None_iff)
    from assms no show ?thesis
      by (simp add: compile_miss_error[where cr = cr, OF pos miss Inl] lru_state_def)
  next
    case (Inr pat)
    then have ok: "compiles cr ?k" by (simp add: compiles_def)
    have spec: "most_recent ?n (filter (compiles cr) (uses @ [?k]))
                  = ?k # take (?n - 1) (filter (\<lambda>x. x \<noteq> ?k) ?R)"
      using ok most_recent_snoc[OF n, of ?us ?k] by simp
    show ?thesis
    proof (cases "map_of (cache self) ?k")
      case None
      then have "?k \<notin> set (map fst (cache self))" by (simp add: map_of_eq_None_iff)
      with keys have absent: "?k \<notin> set (take ?n ?R)" by simp
      then have "?k \<notin> set (take (?n - 1) ?R)"
        using set_take_subset_set_take[of "?n - 1" ?n ?R] by auto
      from take_filter_absent[OF this]
      have f: "take (?n - 1) (filter (\<lambda>x. x \<noteq> ?k) ?R) = take (?n - 1) ?R" .
      from n obtain m where m: "?n = Suc m" by (cases ?n) auto
      have "map fst (take m (cache self)) = take m (map fst (cache self))"
        by (simp add: take_map)
      also have "\<dots> = take m ?R"
        using keys m by (simp add: min_def)
      finally have "map fst (take ?n ((?k, pat) # cache self)) = ?k # take (?n - 1) ?R"
        using m by simp
      moreover have "\<forall>e \<in> set (take ?n ((?k, pat) # cache self)).
          (case fst e of (i, st, en) \<Rightarrow> cr i st en) = Inr (snd e)"
        using vals Inr by (auto dest!: in_set_takeD)
      ultimately show ?thesis
        using pos spec f
        by (simp add: compile_miss_ok[where cr = cr, OF pos None Inr] lru_state_def
              del: take_Suc_Cons)
    next
      case (Some pat')
      then have mem: "(?k, pat') \<in> set (cache self)" by (rule map_of_SomeD)
      then have "?k \<in> set (map fst (cache self))" by force
      with keys have present: "?k \<in> set (take ?n ?R)" by simp
      from filter_take_present[OF dist present]
      have f: "filter (\<lambda>x. x \<noteq> ?k) (take ?n ?R) = take (?n - 1) (filter (\<lambda>x. x \<noteq> ?k) ?R)" .
      have "map fst ((?k, pat') # filter (\<lambda>e. fst e \<noteq> ?k) (cache self))
              = ?k # take (?n - 1) (filter (\<lambda>x. x \<noteq> ?k) ?R)"
        using keys f by (simp add: map_fst_filter_key)
      moreover have "\<forall>e \<in> set ((?k, pat') # filter (\<lambda>e. fst e \<noteq> ?k) (cache self)).
          (case fst e of (i, st, en) \<Rightarrow> cr i st en) = Inr (snd e)"
        using vals mem by auto
      ultimately show ?thesis
        using pos spec
        by (simp add: compile_hit[where cr = cr, OF pos Some] lru_state_def del: set_filter)
    qed
  qed
qed

lemma lru_state_log: "lru_state cr uses (self\<lparr>log := l\<rparr>) = lru_state cr uses self"
  by (simp add: lru_state_def)

lemma uses_tagged:
  "tagged p i \<Longrightarrow>
   RegexChecker_uses cr rm p what (i # rest) self =
     (i, start_tag p, end_tag p) #
     (case RegexChecker_compile cr i (start_tag p) (end_tag p) self of
        (Inl e, self') \<Rightarrow> []
      | (Inr pattern, self') \<Rightarrow>
          if rm pattern what then []
          else RegexChecker_uses cr rm p what rest self')"
  by (auto simp: tagged_def)

lemma lru_state_loop:
  "lru_state cr uses self \<Longrightarrow>
   lru_state cr (uses @ RegexChecker_uses cr rm p what items self)
     (snd (RegexChecker_loop cr rm p what items self))"
proof (induction items arbitrary: uses self)
  case Nil
  then show ?case by simp
next
  case (Cons i items)
  show ?case
  proof (cases "tagged p i")
    case False
    then have lit: "start_tag p \<notin> set i \<and> end_tag p \<notin> set i" by (simp add: tagged_def)
    show ?thesis
      using Cons.IH[OF Cons.prems] Cons.prems lit by simp
  next
    case True
    note unfold = loop_tagged[OF True] uses_tagged[OF True]
    let ?k = "(i, start_tag p, end_tag p)"
    obtain r self' where c: "RegexChecker_compile cr i (start_tag p) (end_tag p) self = (r, self')"
      by (cases "RegexChecker_compile cr i (start_tag p) (end_tag p) self")
    from lru_state_compile[OF Cons.prems, of i "start_tag p" "end_tag p"] c
    have st: "lru_state cr (uses @ [?k]) self'" by simp
    show ?thesis
    proof (cases r)
      case (Inl e)
      with c st show ?thesis
        by (simp add: unfold lru_state_log del: RegexChecker_loop.simps RegexChecker_uses.simps)
    next
      case (Inr pat)
      show ?thesis
      proof (cases "rm pat what")
        case True
        with c st Inr show ?thesis
          by (simp add: unfold del: RegexChecker_loop.simps RegexChecker_uses.simps)
      next
        case False
        from Cons.IH[OF st] have
          "lru_state cr ((uses @ [?k]) @ RegexChecker_uses cr rm p what items self')
             (snd (RegexChecker_loop cr rm p what items self'))" .
        with c Inr False show ?thesis
          by (simp add: unfold del: RegexChecker_loop.simps RegexChecker_uses.simps)
      qed
    qed
  qed
qed

lemma compile_all_size: "cache_size (compile_all cr ks self) = cache_size self"
proof (induction ks arbitrary: self)
  case Nil
  then show ?case by simp
next
  case (Cons k ks)
  then show ?case by (cases k) (simp add: compile_cache_size)
qed

lemma lru_state_fits:
  "lru_state cr uses self \<Longrightarrow>
   lru_state cr (uses @ RegexChecker_uses cr rm p what (getattr_field p field) self)
     (snd (RegexChecker_fits cr rm self p field what))"
  by (simp add: fits_snd lru_state_loop)

lemma lru_state_compile_all:
  "lru_state cr uses self \<Longrightarrow> lru_state cr (uses @ ks) (compile_all cr ks self)"
proof (induction ks arbitrary: uses self)
  case Nil
  then show ?case by simp
next
  case (Cons k ks)
  obtain i st en where k: "k = (i, st, en)" by (cases k)
  from Cons.IH[OF lru_state_compile[OF Cons.prems, of i st en]] k
  show ?case by simp
qed


lemma compile_stores:
  assumes "0 < cache_size self" and "cr i st en = Inr pat"
  shows "(i, st, en) \<in> fst ` set (cache (snd (RegexChecker_compile cr i st en self)))"
proof (cases "map_of (cache self) (i, st, en)")
  case None
  from assms(1) obtain m where "nat (cache_size self) = Suc m"
    by (cases "nat (cache_size self)") auto
  then show ?thesis
    by (simp add: compile_miss_ok[where cr = cr, OF assms(1) None assms(2)])
next
  case (Some pat')
  show ?thesis
    by (simp add: compile_hit[where cr = cr, OF assms(1) Some] del: set_filter)
qed

lemma fits_single_item:
  assumes "attributes p field = Some [j]" and "tagged p j"
    and "cr j (start_tag p) (end_tag p) = Inr pat"
  shows "snd (RegexChecker_fits cr rm self p field what)
           = snd (RegexChecker_compile cr j (start_tag p) (end_tag p) self)"
proof -
  obtain r self' where c: "RegexChecker_compile cr j (start_tag p) (end_tag p) self = (r, self')"
    by (cases "RegexChecker_compile cr j (start_tag p) (end_tag p) self")
  have "\<exists>pat'. r = Inr pat'"
  proof (cases r)
    case (Inl e)
    with compile_raises[of cr j "start_tag p" "end_tag p" self e self'] c assms(3)
    show ?thesis by simp
  next
    case (Inr pat')
    then show ?thesis by simp
  qed
  then obtain pat' where "r = Inr pat'" by blast
  with c assms(1) show ?thesis
    by (simp add: fits_snd getattr_field_def loop_tagged[OF assms(2)]
          del: RegexChecker_loop.simps(2))
qed

lemma fits_repeated:
  assumes "0 < cache_size self" and "attributes p field = Some [j]" and "tagged p j"
    and "cr j (start_tag p) (end_tag p) = Inr pat"
  shows "compile_calls
           (snd (RegexChecker_fits cr rm (snd (RegexChecker_fits cr rm self p field what))
                   p field what'))
         = compile_calls (snd (RegexChecker_fits cr rm self p field what))"
proof -
  let ?s1 = "snd (RegexChecker_fits cr rm self p field what)"
  have s1: "?s1 = snd (RegexChecker_compile cr j (start_tag p) (end_tag p) self)"
    using assms(2,3,4) by (rule fits_single_item)
  have size: "0 < cache_size ?s1"
    using assms(1) by (simp add: s1 compile_cache_size)
  have "(j, start_tag p, end_tag p) \<in> fst ` set (cache ?s1)"
    using compile_stores[where cr = cr, OF assms(1,4)] by (simp add: s1)
  then have "\<forall>i \<in> set (getattr_field p field).
      tagged p i \<longrightarrow> (i, start_tag p, end_tag p) \<in> fst ` set (cache ?s1)"
    using assms(2) by (simp add: getattr_field_def)
  from loop_all_cached[OF size this, of cr rm what'] show ?thesis
    by (simp add: fits_snd)
qed

lemma most_recent_compile_all:
  "0 < n \<Longrightarrow>
   map fst (cache (compile_all cr ks (RegexChecker_init n)))
     = most_recent (nat n) (filter (compiles cr) ks)"
  using lru_state_compile_all[OF lru_state_init, of n cr ks]
  by (simp add: lru_state_def compile_all_size RegexChecker_init_def)

text \<open>
  C8, as amended: the pattern cache never holds more entries than \<open>cache_size\<close>, and
  no key twice; with a \<open>cache_size\<close> of zero or less nothing is stored and every use
  invokes the compiler.  With \<open>cache_size\<close> at least one: when a newly compiled pattern
  is inserted into a full cache, the least recently used entry, the last one, is
  evicted; a use of a triple that has an entry returns the stored pattern without
  invoking the compiler and moves the entry to the front of the cache; a use of a
  triple without an entry invokes the compiler once, a pattern it returns is stored at
  the front, and a failure stores nothing, so that the next use of that triple invokes
  the compiler again; an entry stays in the cache over every use of the compiler
  unless the cache is full and the entry is its least recently used one; a call of
  \<open>fits\<close> on a field whose tagged items all have entries does not invoke the compiler,
  and a repeated call of \<open>fits\<close> on a field with one tagged item that compiles does
  not invoke it again.  From the empty cache on, after every use of the compiler and
  every call of \<open>fits\<close>, the cache holds exactly the \<open>cache_size\<close> most recently used
  triples that compile, the most recently used one first.
\<close>

theorem C8_cache_bounded_lru:
  assumes "cache_inv self"
  shows "cache_inv (snd (RegexChecker_fits cr rm self p field what))
     \<and> length (cache (snd (RegexChecker_fits cr rm self p field what))) \<le> nat (cache_size self)
     \<and> (0 < cache_size self \<and> length (cache self) = nat (cache_size self)
          \<and> map_of (cache self) (i, st, en) = None \<and> cr i st en = Inr pat
        \<longrightarrow> cache (snd (RegexChecker_compile cr i st en self))
              = ((i, st, en), pat) # butlast (cache self))
     \<and> (0 < cache_size self \<and> map_of (cache self) (i, st, en) = Some pat
        \<longrightarrow> fst (RegexChecker_compile cr i st en self) = Inr pat
            \<and> compile_calls (snd (RegexChecker_compile cr i st en self)) = compile_calls self)
     \<and> (0 < cache_size self \<and> map_of (cache self) (i, st, en) = None
        \<longrightarrow> compile_calls (snd (RegexChecker_compile cr i st en self))
              = compile_calls self @ [(i, st, en)]
            \<and> (cr i st en = Inr pat
                 \<longrightarrow> map_of (cache (snd (RegexChecker_compile cr i st en self))) (i, st, en)
                       = Some pat)
            \<and> (\<forall>e. cr i st en = Inl e
                 \<longrightarrow> cache (snd (RegexChecker_compile cr i st en self)) = cache self))
     \<and> (map_of (cache self) k = Some pat'
          \<and> (length (cache self) < nat (cache_size self) \<or> fst (last (cache self)) \<noteq> k)
        \<longrightarrow> map_of (cache (snd (RegexChecker_compile cr i st en self))) k = Some pat')
     \<and> (0 < cache_size self
          \<and> (\<forall>j \<in> set (getattr_field p field).
                 tagged p j \<longrightarrow> (j, start_tag p, end_tag p) \<in> fst ` set (cache self))
        \<longrightarrow> compile_calls (snd (RegexChecker_fits cr rm self p field what))
              = compile_calls self)
     \<and> (cache_size self \<le> 0
        \<longrightarrow> RegexChecker_compile cr i st en self
              = (cr i st en, self\<lparr>compile_calls := compile_calls self @ [(i, st, en)]\<rparr>))
     \<and> (0 < cache_size self \<and> map_of (cache self) (i, st, en) = Some pat
        \<longrightarrow> cache (snd (RegexChecker_compile cr i st en self))
              = ((i, st, en), pat) # filter (\<lambda>e. fst e \<noteq> (i, st, en)) (cache self))
     \<and> (0 < cache_size self \<and> map_of (cache self) (i, st, en) = None \<and> cr i st en = Inr pat
        \<longrightarrow> cache (snd (RegexChecker_compile cr i st en self))
              = take (nat (cache_size self)) (((i, st, en), pat) # cache self))
     \<and> (0 < n \<longrightarrow> lru_state cr [] (RegexChecker_init n))
     \<and> (lru_state cr uses self
        \<longrightarrow> lru_state cr (uses @ [(i, st, en)]) (snd (RegexChecker_compile cr i st en self)))
     \<and> (lru_state cr uses self
        \<longrightarrow> lru_state cr (uses @ RegexChecker_uses cr rm p what (getattr_field p field) self)
              (snd (RegexChecker_fits cr rm self p field what)))
     \<and> (0 < n
        \<longrightarrow> map fst (cache (compile_all cr ks (RegexChecker_init n)))
              = most_recent (nat n) (filter (compiles cr) ks))
     \<and> (0 < cache_size self \<and> attributes p field = Some [j] \<and> tagged p j
          \<and> cr j (start_tag p) (end_tag p) = Inr pat
        \<longrightarrow> compile_calls
              (snd (RegexChecker_fits cr rm (snd (RegexChecker_fits cr rm self p field what))
                      p field what'))
              = compile_calls (snd (RegexChecker_fits cr rm self p field what)))"
proof -
  have A: "cache_inv (snd (RegexChecker_fits cr rm self p field what))"
    using loop_cache_inv[OF assms] by (simp add: fits_snd)
  have A': "length (cache (snd (RegexChecker_fits cr rm self p field what))) \<le> nat (cache_size self)"
    using A by (simp add: cache_inv_def fits_snd loop_cache_size)
  have B: "cache (snd (RegexChecker_compile cr i st en self)) = ((i, st, en), pat) # butlast (cache self)"
    if "0 < cache_size self" "length (cache self) = nat (cache_size self)"
       "map_of (cache self) (i, st, en) = None" "cr i st en = Inr pat"
    using that by (rule compile_evicts)
  have C: "fst (RegexChecker_compile cr i st en self) = Inr pat
            \<and> compile_calls (snd (RegexChecker_compile cr i st en self)) = compile_calls self"
    if "0 < cache_size self" "map_of (cache self) (i, st, en) = Some pat"
    using that by (simp add: compile_hit)
  have D1: "compile_calls (snd (RegexChecker_compile cr i st en self)) = compile_calls self @ [(i, st, en)]"
    if "0 < cache_size self" "map_of (cache self) (i, st, en) = None"
    using that by (cases "cr i st en") (simp_all add: compile_miss_error compile_miss_ok)
  have D2: "map_of (cache (snd (RegexChecker_compile cr i st en self))) (i, st, en) = Some pat"
    if "0 < cache_size self" "map_of (cache self) (i, st, en) = None" "cr i st en = Inr pat"
  proof -
    from that(1) obtain n where n: "nat (cache_size self) = Suc n"
      by (cases "nat (cache_size self)") auto
    show ?thesis
      using that n by (simp add: compile_miss_ok)
  qed
  have D3: "cache (snd (RegexChecker_compile cr i st en self)) = cache self"
    if "0 < cache_size self" "map_of (cache self) (i, st, en) = None" "cr i st en = Inl e" for e
    using that by (simp add: compile_miss_error)
  have E: "map_of (cache (snd (RegexChecker_compile cr i st en self))) k = Some pat'"
    if "map_of (cache self) k = Some pat'"
       "length (cache self) < nat (cache_size self) \<or> fst (last (cache self)) \<noteq> k"
    using assms that by (rule compile_keeps_entry)
  have F: "compile_calls (snd (RegexChecker_fits cr rm self p field what)) = compile_calls self"
    if "0 < cache_size self"
       "\<forall>j \<in> set (getattr_field p field).
           tagged p j \<longrightarrow> (j, start_tag p, end_tag p) \<in> fst ` set (cache self)"
    using loop_all_cached[OF that, of cr rm what] by (simp add: fits_snd)
  have Z: "RegexChecker_compile cr i st en self
              = (cr i st en, self\<lparr>compile_calls := compile_calls self @ [(i, st, en)]\<rparr>)"
    if "cache_size self \<le> 0"
    using that by (rule compile_off)
  have H: "cache (snd (RegexChecker_compile cr i st en self))
              = ((i, st, en), pat) # filter (\<lambda>e. fst e \<noteq> (i, st, en)) (cache self)"
    if "0 < cache_size self" "map_of (cache self) (i, st, en) = Some pat"
    using that by (simp add: compile_hit)
  have M: "cache (snd (RegexChecker_compile cr i st en self))
              = take (nat (cache_size self)) (((i, st, en), pat) # cache self)"
    if "0 < cache_size self" "map_of (cache self) (i, st, en) = None" "cr i st en = Inr pat"
    using that by (simp add: compile_miss_ok del: take_Suc_Cons)
  have G1: "lru_state cr [] (RegexChecker_init n)" if "0 < n"
    using that by (rule lru_state_init)
  have G2: "lru_state cr (uses @ [(i, st, en)]) (snd (RegexChecker_compile cr i st en self))"
    if "lru_state cr uses self"
    using that by (rule lru_state_compile)
  have G3: "lru_state cr (uses @ RegexChecker_uses cr rm p what (getattr_field p field) self)
              (snd (RegexChecker_fits cr rm self p field what))"
    if "lru_state cr uses self"
    using that by (rule lru_state_fits)
  have G4: "map fst (cache (compile_all cr ks (RegexChecker_init n)))
              = most_recent (nat n) (filter (compiles cr) ks)"
    if "0 < n"
    using that by (rule most_recent_compile_all)
  have R: "compile_calls
              (snd (RegexChecker_fits cr rm (snd (RegexChecker_fits cr rm self p field what))
                      p field what'))
              = compile_calls (snd (RegexChecker_fits cr rm self p field what))"
    if "0 < cache_size self" "attributes p field = Some [j]" "tagged p j"
       "cr j (start_tag p) (end_tag p) = Inr pat"
    using that by (rule fits_repeated)
  have old: "cache_inv (snd (RegexChecker_fits cr rm self p field what))
     \<and> length (cache (snd (RegexChecker_fits cr rm self p field what))) \<le> nat (cache_size self)"
    using A A' by simp
  show ?thesis
    apply (intro conjI)
    subgoal by (rule A)
    subgoal by (rule A')
    subgoal using B by blast
    subgoal using C by blast
    subgoal using D1 D2 D3 by blast
    subgoal using E by blast
    subgoal using F by blast
    subgoal using Z by blast
    subgoal using H by blast
    subgoal using M by blast
    subgoal using G1 by blast
    subgoal using G2 by blast
    subgoal using G3 by blast
    subgoal using G4 by blast
    subgoal using R by blast
    done
qed

text \<open>
  On the full cache of two patterns: compiling \<open><c>\<close> evicts \<open><a>\<close> and keeps \<open><b>\<close>,
  compiling \<open><a>\<close> is a hit that moves \<open><a>\<close> to the front, and \<open>fits\<close> over \<open><a>\<close>
  and \<open><b>\<close> compiles nothing.  From the empty cache of size two, the uses \<open><a>\<close>,
  \<open><b>\<close>, \<open><a>\<close>, \<open><c>\<close> leave \<open><c>\<close> and \<open><a>\<close>: the hit has made \<open><b>\<close> the least
  recently used entry.  With a size of zero the compiler is called and nothing is
  stored.
\<close>

theorem C8_cache_bounded_lru_witness:
  "cache_inv full_cache
   \<and> length (cache (snd (RegexChecker_fits compile_regex re_match full_cache
                 (example_policy [''<a>'', ''<b>'']) ''subjects'' ''z''))) \<le> 2
   \<and> cache (snd (RegexChecker_compile compile_regex ''<c>'' CHR ''<'' CHR ''>'' full_cache))
       = [(tag_key ''<c>'', pattern_c), (tag_key ''<b>'', pattern_b)]
   \<and> fst (RegexChecker_compile compile_regex ''<a>'' CHR ''<'' CHR ''>'' full_cache) = Inr pattern_a
   \<and> compile_calls (snd (RegexChecker_compile compile_regex ''<a>'' CHR ''<'' CHR ''>'' full_cache))
       = [tag_key ''<a>'', tag_key ''<b>'']
   \<and> compile_calls (snd (RegexChecker_compile compile_regex ''<c>'' CHR ''<'' CHR ''>'' full_cache))
       = [tag_key ''<a>'', tag_key ''<b>'', tag_key ''<c>'']
   \<and> map_of (cache (snd (RegexChecker_compile compile_regex ''<c>'' CHR ''<'' CHR ''>'' full_cache)))
         (tag_key ''<b>'') = Some pattern_b
   \<and> compile_calls (snd (RegexChecker_fits compile_regex re_match full_cache
                 (example_policy [''<a>'', ''<b>'']) ''subjects'' ''z''))
       = [tag_key ''<a>'', tag_key ''<b>'']
   \<and> RegexChecker_compile compile_regex ''<a>'' CHR ''<'' CHR ''>'' (RegexChecker_init 0)
       = (Inr pattern_a, (RegexChecker_init 0)\<lparr>compile_calls := [tag_key ''<a>'']\<rparr>)
   \<and> cache (snd (RegexChecker_compile compile_regex ''<a>'' CHR ''<'' CHR ''>'' full_cache))
       = [(tag_key ''<a>'', pattern_a), (tag_key ''<b>'', pattern_b)]
   \<and> lru_state compile_regex [] (RegexChecker_init 2 :: regex RegexChecker)
   \<and> lru_state compile_regex [tag_key ''<a>'', tag_key ''<b>'', tag_key ''<a>'']
         (snd (RegexChecker_compile compile_regex ''<a>'' CHR ''<'' CHR ''>'' full_cache))
   \<and> lru_state compile_regex [tag_key ''<a>'', tag_key ''<b>'', tag_key ''<a>'', tag_key ''<b>'']
         (snd (RegexChecker_fits compile_regex re_match full_cache
                 (example_policy [''<a>'', ''<b>'']) ''subjects'' ''z''))
   \<and> map fst (cache (compile_all compile_regex
                          [tag_key ''<a>'', tag_key ''<b>'', tag_key ''<a>'', tag_key ''<c>'']
                          (RegexChecker_init 2 :: regex RegexChecker)))
       = [tag_key ''<c>'', tag_key ''<a>'']
   \<and> compile_calls
         (snd (RegexChecker_fits compile_regex re_match
                 (snd (RegexChecker_fits compile_regex re_match (RegexChecker_init 2)
                         (example_policy [''<a>'']) ''subjects'' ''z''))
                 (example_policy [''<a>'']) ''subjects'' ''a''))
       = [tag_key ''<a>'']"
proof -
  let ?p = "example_policy [''<a>'', ''<b>'']"
  let ?q = "example_policy [''<a>'']"
  let ?z = "RegexChecker_init 0 :: regex RegexChecker"
  let ?two = "RegexChecker_init 2 :: regex RegexChecker"
  let ?fits = "RegexChecker_fits compile_regex re_match full_cache ?p ''subjects'' ''z''"
  let ?ca = "RegexChecker_compile compile_regex ''<a>'' CHR ''<'' CHR ''>'' full_cache"
  let ?cc = "RegexChecker_compile compile_regex ''<c>'' CHR ''<'' CHR ''>'' full_cache"
  have inv: "cache_inv full_cache"
    by (simp add: cache_inv_def full_cache_def tag_key_def)
  have zinv: "cache_inv ?z" and zsize: "cache_size ?z \<le> 0"
    by (simp_all add: cache_inv_def RegexChecker_init_def)
  have tinv: "cache_inv ?two" and tsize: "0 < cache_size ?two"
    by (simp_all add: cache_inv_def RegexChecker_init_def)
  have size: "0 < cache_size full_cache" and full: "length (cache full_cache) = nat (cache_size full_cache)"
    by (simp_all add: full_cache_def)
  have miss: "map_of (cache full_cache) (''<c>'', CHR ''<'', CHR ''>'') = None"
    by (simp add: full_cache_def tag_key_def)
  have hit: "map_of (cache full_cache) (''<a>'', CHR ''<'', CHR ''>'') = Some pattern_a"
    by (simp add: full_cache_def tag_key_def)
  have keep: "map_of (cache full_cache) (tag_key ''<b>'') = Some pattern_b"
    and room: "length (cache full_cache) < nat (cache_size full_cache)
       \<or> fst (last (cache full_cache)) \<noteq> tag_key ''<b>''"
    by (simp_all add: full_cache_def tag_key_def)
  have cached: "\<forall>j \<in> set (getattr_field ?p ''subjects'').
      tagged ?p j \<longrightarrow> (j, start_tag ?p, end_tag ?p) \<in> fst ` set (cache full_cache)"
    by (simp add: getattr_field_def example_policy_def full_cache_def tag_key_def)
  have two: "(0::int) < 2" by simp
  have ok: "compiles compile_regex (tag_key ''<a>'')" "compiles compile_regex (tag_key ''<b>'')"
    "compiles compile_regex (tag_key ''<c>'')"
    by (simp_all add: compiles_def tag_key_def compile_abc)
  have start: "lru_state compile_regex [tag_key ''<a>'', tag_key ''<b>''] full_cache"
    using ok by (simp add: lru_state_def most_recent_def full_cache_def tag_key_def compile_abc)
  have q: "attributes ?q ''subjects'' = Some [''<a>'']" "tagged ?q ''<a>''"
    "compile_regex ''<a>'' (start_tag ?q) (end_tag ?q) = Inr pattern_a"
    by (simp_all add: example_policy_def tagged_def compile_abc)
  have uses: "RegexChecker_uses compile_regex re_match ?p ''z'' (getattr_field ?p ''subjects'') full_cache
       = [tag_key ''<a>'', tag_key ''<b>'']"
    by (simp add: getattr_field_def example_policy_def full_cache_def tag_key_def
          RegexChecker_compile_def Let_def re_match_def pattern_a_def pattern_b_def newline_def)
  have once: "compile_calls (snd (RegexChecker_fits compile_regex re_match ?two ?q ''subjects'' ''z''))
       = [tag_key ''<a>'']"
    by (simp add: RegexChecker_fits_def getattr_field_def example_policy_def
          RegexChecker_compile_def Let_def RegexChecker_init_def compile_abc tag_key_def
          re_match_def pattern_a_def newline_def)
  have w2: "length (cache (snd ?fits)) \<le> 2"
    using C8_cache_bounded_lru[OF inv, where cr = compile_regex and rm = re_match and p = ?p
        and field = "''subjects''" and what = "''z''",
        THEN conjunct2, THEN conjunct1] by (simp add: full_cache_def)
  have w3: "cache (snd ?cc) = [(tag_key ''<c>'', pattern_c), (tag_key ''<b>'', pattern_b)]"
    using C8_cache_bounded_lru[OF inv, where cr = compile_regex and rm = re_match and p = ?p
        and field = "''subjects''" and what = "''z''"
        and i = "''<c>''" and st = "CHR ''<''" and en = "CHR ''>''"
        and pat = pattern_c,
        THEN conjunct2, THEN conjunct2, THEN conjunct1] size full miss compile_abc(3)
    by (simp add: full_cache_def tag_key_def)
  have w4: "fst ?ca = Inr pattern_a \<and> compile_calls (snd ?ca) = [tag_key ''<a>'', tag_key ''<b>'']"
    using C8_cache_bounded_lru[OF inv, where cr = compile_regex and rm = re_match and p = ?p
        and field = "''subjects''" and what = "''z''"
        and i = "''<a>''" and st = "CHR ''<''" and en = "CHR ''>''"
        and pat = pattern_a,
        THEN conjunct2, THEN conjunct2, THEN conjunct2, THEN conjunct1] size hit
    by (simp add: full_cache_def)
  have w5: "compile_calls (snd ?cc) = [tag_key ''<a>'', tag_key ''<b>'', tag_key ''<c>'']"
    using C8_cache_bounded_lru[OF inv, where cr = compile_regex and rm = re_match and p = ?p
        and field = "''subjects''" and what = "''z''"
        and i = "''<c>''" and st = "CHR ''<''" and en = "CHR ''>''"
        and pat = pattern_c,
        THEN conjunct2, THEN conjunct2, THEN conjunct2, THEN conjunct2,
        THEN conjunct1] size miss
    by (simp add: full_cache_def tag_key_def)
  have w6: "map_of (cache (snd ?cc)) (tag_key ''<b>'') = Some pattern_b"
    using C8_cache_bounded_lru[OF inv, where cr = compile_regex and rm = re_match and p = ?p
        and field = "''subjects''" and what = "''z''"
        and i = "''<c>''" and st = "CHR ''<''" and en = "CHR ''>''"
        and k = "tag_key ''<b>''" and pat' = pattern_b,
        THEN conjunct2, THEN conjunct2, THEN conjunct2, THEN conjunct2,
        THEN conjunct2, THEN conjunct1] keep room
    by blast
  have w7: "compile_calls (snd ?fits) = [tag_key ''<a>'', tag_key ''<b>'']"
    using C8_cache_bounded_lru[OF inv, where cr = compile_regex and rm = re_match and p = ?p
        and field = "''subjects''" and what = "''z''",
        THEN conjunct2, THEN conjunct2, THEN conjunct2, THEN conjunct2,
        THEN conjunct2, THEN conjunct2, THEN conjunct1] size cached
    by (simp add: full_cache_def)
  have w8: "RegexChecker_compile compile_regex ''<a>'' CHR ''<'' CHR ''>'' ?z
       = (Inr pattern_a, ?z\<lparr>compile_calls := [tag_key ''<a>'']\<rparr>)"
    using C8_cache_bounded_lru[OF zinv, where cr = compile_regex and i = "''<a>''"
        and st = "CHR ''<''" and en = "CHR ''>''",
        THEN conjunct2, THEN conjunct2, THEN conjunct2, THEN conjunct2,
        THEN conjunct2, THEN conjunct2, THEN conjunct2, THEN conjunct1] zsize
    by (simp add: compile_abc RegexChecker_init_def tag_key_def)
  have w9: "cache (snd ?ca) = [(tag_key ''<a>'', pattern_a), (tag_key ''<b>'', pattern_b)]"
    using C8_cache_bounded_lru[OF inv, where cr = compile_regex and rm = re_match and p = ?p
        and field = "''subjects''" and what = "''z''"
        and i = "''<a>''" and st = "CHR ''<''" and en = "CHR ''>''"
        and pat = pattern_a,
        THEN conjunct2, THEN conjunct2, THEN conjunct2, THEN conjunct2,
        THEN conjunct2, THEN conjunct2, THEN conjunct2, THEN conjunct2,
        THEN conjunct1] size hit
    by (simp add: full_cache_def tag_key_def)
  have w11: "lru_state compile_regex [] ?two"
    using C8_cache_bounded_lru[OF inv, where cr = compile_regex and rm = re_match and p = ?p
        and field = "''subjects''" and what = "''z''"
        and n = 2,
        THEN conjunct2, THEN conjunct2, THEN conjunct2, THEN conjunct2,
        THEN conjunct2, THEN conjunct2, THEN conjunct2, THEN conjunct2,
        THEN conjunct2, THEN conjunct2, THEN conjunct1] two by blast
  have w12: "lru_state compile_regex [tag_key ''<a>'', tag_key ''<b>'', tag_key ''<a>''] (snd ?ca)"
    using C8_cache_bounded_lru[OF inv, where cr = compile_regex and rm = re_match and p = ?p
        and field = "''subjects''" and what = "''z''"
        and i = "''<a>''" and st = "CHR ''<''" and en = "CHR ''>''"
        and uses = "[tag_key ''<a>'', tag_key ''<b>'']",
        THEN conjunct2, THEN conjunct2, THEN conjunct2, THEN conjunct2,
        THEN conjunct2, THEN conjunct2, THEN conjunct2, THEN conjunct2,
        THEN conjunct2, THEN conjunct2, THEN conjunct2, THEN conjunct1] start
    by (simp add: tag_key_def)
  have w13: "lru_state compile_regex
         [tag_key ''<a>'', tag_key ''<b>'', tag_key ''<a>'', tag_key ''<b>''] (snd ?fits)"
    using C8_cache_bounded_lru[OF inv, where cr = compile_regex and rm = re_match and p = ?p
        and field = "''subjects''" and what = "''z''"
        and uses = "[tag_key ''<a>'', tag_key ''<b>'']",
        THEN conjunct2, THEN conjunct2, THEN conjunct2, THEN conjunct2,
        THEN conjunct2, THEN conjunct2, THEN conjunct2, THEN conjunct2,
        THEN conjunct2, THEN conjunct2, THEN conjunct2, THEN conjunct2,
        THEN conjunct1] start
    by (simp add: uses)
  have w14: "map fst (cache (compile_all compile_regex
            [tag_key ''<a>'', tag_key ''<b>'', tag_key ''<a>'', tag_key ''<c>''] ?two))
        = [tag_key ''<c>'', tag_key ''<a>'']"
    using C8_cache_bounded_lru[OF inv, where cr = compile_regex and rm = re_match and p = ?p
        and field = "''subjects''" and what = "''z''"
        and n = 2
        and ks = "[tag_key ''<a>'', tag_key ''<b>'', tag_key ''<a>'', tag_key ''<c>'']",
        THEN conjunct2, THEN conjunct2, THEN conjunct2, THEN conjunct2,
        THEN conjunct2, THEN conjunct2, THEN conjunct2, THEN conjunct2,
        THEN conjunct2, THEN conjunct2, THEN conjunct2, THEN conjunct2,
        THEN conjunct2, THEN conjunct1] ok
    by (simp add: most_recent_def tag_key_def)
  have w15: "compile_calls
         (snd (RegexChecker_fits compile_regex re_match
                 (snd (RegexChecker_fits compile_regex re_match ?two ?q ''subjects'' ''z''))
                 ?q ''subjects'' ''a''))
       = [tag_key ''<a>'']"
    using C8_cache_bounded_lru[OF tinv, where cr = compile_regex and rm = re_match and p = ?q
        and field = "''subjects''" and what = "''z''" and what' = "''a''" and j = "''<a>''"
        and pat = pattern_a,
        THEN conjunct2, THEN conjunct2, THEN conjunct2, THEN conjunct2,
        THEN conjunct2, THEN conjunct2, THEN conjunct2, THEN conjunct2,
        THEN conjunct2, THEN conjunct2, THEN conjunct2, THEN conjunct2,
        THEN conjunct2, THEN conjunct2] tsize q once
    by simp
  from inv w2 w3 w4 w5 w6 w7 w8 w9 w11 w12 w13 w14 w15 show ?thesis
    by (intro conjI) simp_all
qed

text \<open>
  C8 as stated fails: two calls of \<open>fits\<close> with the unbalanced item \<open><a\<close> invoke the
  compiler twice for the same triple, although no entry was evicted in between: the
  cache of size 1024 is empty before, between and after the calls.
\<close>

theorem C8_failed_compilation_repeats:
  "compile_calls
     (snd (RegexChecker_fits compile_regex re_match
             (snd (RegexChecker_fits compile_regex re_match (RegexChecker_init 1024)
                     (example_policy [''<a'']) ''subjects'' ''a''))
             (example_policy [''<a'']) ''subjects'' ''a''))
     = [tag_key ''<a'', tag_key ''<a'']
   \<and> cache (snd (RegexChecker_fits compile_regex re_match (RegexChecker_init 1024)
                     (example_policy [''<a'']) ''subjects'' ''a'')) = []
   \<and> cache (RegexChecker_init 1024 :: regex RegexChecker) = []"
  by (simp add: RegexChecker_fits_def getattr_field_def example_policy_def RegexChecker_compile_def
        Let_def RegexChecker_init_def compile_abc tag_key_def)

text \<open>With a cache size of zero nothing is stored, and every use compiles again.\<close>

lemma no_caching_at_size_zero:
  "compile_calls
     (snd (RegexChecker_fits compile_regex re_match
             (snd (RegexChecker_fits compile_regex re_match (RegexChecker_init 0)
                     (example_policy [''<a>'']) ''subjects'' ''z''))
             (example_policy [''<a>'']) ''subjects'' ''z''))
     = [tag_key ''<a>'', tag_key ''<a>'']"
  by (simp add: RegexChecker_fits_def getattr_field_def example_policy_def RegexChecker_compile_def
        Let_def RegexChecker_init_def compile_abc tag_key_def pattern_a_def re_match_def newline_def)

text \<open>
  With the tagged item between the literal \<open>cat\<close> and the literal \<open>Dogger\<close>: the value
  \<open>Dogger\<close> is not matched by the pattern and is found further on, \<open>Doge\<close> is matched
  by the pattern; with the tagged item alone, \<open>Dogger\<close> does not fit.
\<close>

theorem C6_tagged_item_matches_witness:
  "RegexChecker_fits compile_regex re_match (RegexChecker_init 1024)
     (example_policy [''cat'', ''<Dog[se]?>'', ''Dogger'']) ''subjects'' ''Dogger''
   = (Inr True,
      \<lparr>cache_size = 1024, cache = [(tag_key ''<Dog[se]?>'', dog_pattern)],
       compile_calls = [tag_key ''<Dog[se]?>''], log = []\<rparr>)
   \<and> RegexChecker_fits compile_regex re_match (RegexChecker_init 1024)
     (example_policy [''cat'', ''<Dog[se]?>'', ''Dogger'']) ''subjects'' ''Doge''
   = (Inr True,
      \<lparr>cache_size = 1024, cache = [(tag_key ''<Dog[se]?>'', dog_pattern)],
       compile_calls = [tag_key ''<Dog[se]?>''], log = []\<rparr>)
   \<and> RegexChecker_fits compile_regex re_match (RegexChecker_init 1024)
     (example_policy [''<Dog[se]?>'']) ''subjects'' ''Dogger''
   = (Inr False,
      \<lparr>cache_size = 1024, cache = [(tag_key ''<Dog[se]?>'', dog_pattern)],
       compile_calls = [tag_key ''<Dog[se]?>''], log = []\<rparr>)"
proof -
  let ?p = "example_policy [''cat'', ''<Dog[se]?>'', ''Dogger'']"
  let ?q = "example_policy [''<Dog[se]?>'']"
  let ?s = "RegexChecker_init 1024 :: regex RegexChecker"
  let ?s2 = "\<lparr>cache_size = 1024, cache = [(tag_key ''<Dog[se]?>'', dog_pattern)],
       compile_calls = [tag_key ''<Dog[se]?>''], log = []\<rparr>"
  have a: "attributes ?p ''subjects'' = Some ([''cat''] @ ''<Dog[se]?>'' # [''Dogger''])"
    "attributes ?q ''subjects'' = Some [''<Dog[se]?>'']"
    by (simp_all add: example_policy_def)
  have l: "RegexChecker_loop compile_regex re_match ?p w [''cat''] ?s = (None, ?s)"
    if "w \<noteq> ''cat''" for w
    using that by (auto simp: example_policy_def)
  have t: "tagged ?p ''<Dog[se]?>''" "tagged ?q ''<Dog[se]?>''"
    by (simp_all add: tagged_def example_policy_def)
  have c: "RegexChecker_compile compile_regex ''<Dog[se]?>'' (start_tag ?p) (end_tag ?p) ?s
             = (Inr dog_pattern, ?s2)"
    "RegexChecker_compile compile_regex ''<Dog[se]?>'' (start_tag ?q) (end_tag ?q) ?s
             = (Inr dog_pattern, ?s2)"
    by (simp_all add: RegexChecker_compile_def Let_def RegexChecker_init_def example_policy_def
          compile_dog tag_key_def)
  have r: "RegexChecker_loop compile_regex re_match ?p ''Dogger'' [''Dogger''] ?s2
             = (Some (Inr True), ?s2)"
    by (simp add: example_policy_def)
  from C6_tagged_item_matches[where p = ?p and field = "''subjects''" and xs = "[''cat'']"
      and i = "''<Dog[se]?>''" and rest = "[''Dogger'']" and cr = compile_regex
      and rm = re_match and what = "''Dogger''" and self = ?s and ?self1.0 = ?s
      and pattern = dog_pattern and ?self2.0 = ?s2]
    a(1) l[of "''Dogger''"] t(1) c(1) r match_dog(4)
  have 1: "RegexChecker_fits compile_regex re_match ?s ?p ''subjects'' ''Dogger'' = (Inr True, ?s2)"
    by simp
  from C6_tagged_item_matches[where p = ?p and field = "''subjects''" and xs = "[''cat'']"
      and i = "''<Dog[se]?>''" and rest = "[''Dogger'']" and cr = compile_regex
      and rm = re_match and what = "''Doge''" and self = ?s and ?self1.0 = ?s
      and pattern = dog_pattern and ?self2.0 = ?s2]
    a(1) l[of "''Doge''"] t(1) c(1) match_dog(2)
  have 2: "RegexChecker_fits compile_regex re_match ?s ?p ''subjects'' ''Doge'' = (Inr True, ?s2)"
    by simp
  from C6_tagged_item_matches[where p = ?q and field = "''subjects''"
      and i = "''<Dog[se]?>''" and cr = compile_regex
      and rm = re_match and what = "''Dogger''" and self = ?s
      and pattern = dog_pattern and ?self2.0 = ?s2]
    a(2) t(2) c(2) match_dog(4)
  have 3: "RegexChecker_fits compile_regex re_match ?s ?q ''subjects'' ''Dogger'' = (Inr False, ?s2)"
    by simp
  from 1 2 3 show ?thesis by simp
qed

section \<open>Properties of the pairs condition\<close>

text \<open>
  On a list \<open>StringPairsEqualCondition.satisfied\<close> returns true exactly when every
  element is a pair of equal strings.  When every element has a length the result is
  a boolean; an element without a length that is reached raises \<open>TypeError\<close>.
\<close>

lemma length_two: "length xs = 2 \<longleftrightarrow> (\<exists>a b. xs = [a, b])"
  by (cases xs; cases "tl xs") auto

lemma py_len_two:
  "py_len v = Inr 2 \<Longrightarrow>
   \<exists>a b. two_elements v = Some (a, b) \<and> py_index v 0 = Inr a \<and> py_index v 1 = Inr b"
  by (cases v) (auto simp: length_two)

lemma py_len_not_two: "py_len v = Inr n \<Longrightarrow> n \<noteq> 2 \<Longrightarrow> two_elements v = None"
  by (cases v rule: two_elements.cases) auto

lemma py_len_raises: "py_len v = Inl e \<Longrightarrow> two_elements v = None \<and> e = TypeError"
  by (cases v rule: two_elements.cases) auto

lemma pairs_loop_step:
  "pairs_loop (v # rest) =
     (case py_len v of
        Inl e \<Rightarrow> Inl e
      | Inr n \<Rightarrow> if equal_string_pair v then pairs_loop rest else Inr False)"
proof (cases "py_len v")
  case (Inl e)
  then show ?thesis by simp
next
  case (Inr n)
  show ?thesis
  proof (cases "n = 2")
    case True
    with Inr obtain a b where
      "two_elements v = Some (a, b)" "py_index v 0 = Inr a" "py_index v 1 = Inr b"
      using py_len_two by blast
    with Inr True show ?thesis
      by (auto simp: equal_string_pair_def)
  next
    case False
    with Inr have "two_elements v = None" by (rule py_len_not_two)
    with Inr False show ?thesis by (simp add: equal_string_pair_def)
  qed
qed

lemma pairs_loop_true_iff:
  "pairs_loop ps = Inr True \<longleftrightarrow> (\<forall>v \<in> set ps. equal_string_pair v)"
proof (induction ps)
  case Nil
  then show ?case by simp
next
  case (Cons v ps)
  show ?case
    using Cons.IH py_len_raises[of v]
    by (auto simp: pairs_loop_step equal_string_pair_def simp del: pairs_loop.simps
             split: sum.splits)
qed

lemma pairs_loop_has_len:
  "\<forall>v \<in> set ps. has_len v \<Longrightarrow>
   pairs_loop ps = Inr (\<forall>v \<in> set ps. equal_string_pair v)"
proof (induction ps)
  case Nil
  then show ?case by simp
next
  case (Cons v ps)
  then show ?case
    by (auto simp: pairs_loop_step has_len_def simp del: pairs_loop.simps split: sum.splits)
qed

lemma pairs_loop_raises:
  "\<forall>v \<in> set xs. equal_string_pair v \<Longrightarrow> \<not> has_len u \<Longrightarrow>
   pairs_loop (xs @ u # rest) = Inl TypeError"
proof (induction xs)
  case Nil
  then show ?case
    using py_len_raises[of u] by (auto simp: has_len_def split: sum.splits)
next
  case (Cons x xs)
  then show ?case
    using py_len_raises[of x]
    by (auto simp: pairs_loop_step equal_string_pair_def simp del: pairs_loop.simps
             split: sum.splits)
qed

lemma StringPairsEqualCondition_true_iff:
  "StringPairsEqualCondition_satisfied what request = Inr True
   \<longleftrightarrow> (\<exists>ps. what = PList ps \<and> (\<forall>v \<in> set ps. equal_string_pair v))"
  by (cases what) (simp_all add: pairs_loop_true_iff)

lemma StringPairsEqualCondition_has_len:
  "\<forall>v \<in> set ps. has_len v \<Longrightarrow>
   StringPairsEqualCondition_satisfied (PList ps) request
     = Inr (\<forall>v \<in> set ps. equal_string_pair v)"
  by (simp add: pairs_loop_has_len)

lemma StringPairsEqualCondition_not_list:
  "\<not> is_list what \<Longrightarrow> StringPairsEqualCondition_satisfied what request = Inr False"
  by (cases what) simp_all

lemma StringEqualCondition_total:
  "StringEqualCondition_satisfied self what request = Inr (what = PStr (equals self))"
  by (cases what) (simp_all add: StringEqualCondition_satisfied_def)


text \<open>The worked examples of the two conditions.\<close>

lemma condition_examples:
  "StringPairsEqualCondition_satisfied
     (PList [PList [PStr ''a'', PStr ''a''], PList [PStr ''b'', PStr ''b'']]) request = Inr True"
  "StringPairsEqualCondition_satisfied (PList [PList [PStr ''a'', PStr ''b'']]) request = Inr False"
  "StringPairsEqualCondition_satisfied (PStr ''x'') request = Inr False"
  "StringPairsEqualCondition_satisfied (PList [PList [PInt 1, PStr ''a'']]) request = Inr False"
  "StringEqualCondition_satisfied \<lparr>equals = ''a''\<rparr> (PStr ''a'') request = Inr True"
  "StringEqualCondition_satisfied \<lparr>equals = ''a''\<rparr> (PStr ''b'') request = Inr False"
  "StringEqualCondition_satisfied \<lparr>equals = ''a''\<rparr> (PInt 5) request = Inr False"
  by (simp_all add: StringEqualCondition_satisfied_def)

text \<open>
  C2 says that any pair of unequal elements makes the whole result false.  The list
  \<open>[5, ["a", "b"]]\<close> holds such a pair, and the call does not return false: \<open>len(5)\<close>
  raises \<open>TypeError\<close> before the pair is looked at.
\<close>

theorem C2_unsized_element_raises:
  "StringPairsEqualCondition_satisfied (PList [PInt 5, PList [PStr ''a'', PStr ''b'']]) ()
     = Inl TypeError"
  by simp

section \<open>Properties of the string checkers\<close>

text \<open>
  When no item of the field is empty, \<open>StringChecker.fits\<close> returns whether some item,
  stripped of its tags, satisfies \<open>compare\<close>.  An empty item that is reached raises
  \<open>IndexError\<close>.
\<close>

lemma stripped_nonempty:
  "item \<noteq> [] \<Longrightarrow>
   (if start_tag p = hd item \<and> end_tag p = last item then strip_ends item else item)
     = stripped p item"
  unfolding stripped_def strip_ends_def by (cases "start_tag p = hd item") auto

lemma StringChecker_loop_Cons:
  "item \<noteq> [] \<Longrightarrow>
   StringChecker_loop compare p what (item # rest) =
     (if compare what (stripped p item) then Inr True
      else StringChecker_loop compare p what rest)"
  by (simp add: stripped_nonempty Let_def)

lemma StringChecker_loop_nonempty:
  "\<forall>item \<in> set items. item \<noteq> [] \<Longrightarrow>
   StringChecker_loop compare p what items =
     Inr (\<exists>item \<in> set items. compare what (stripped p item))"
proof (induction items)
  case Nil
  then show ?case by simp
next
  case (Cons item items)
  then show ?case
    by (simp add: StringChecker_loop_Cons del: StringChecker_loop.simps(2))
qed

lemma StringChecker_loop_raises:
  "\<forall>item \<in> set xs. item \<noteq> [] \<and> \<not> compare what (stripped p item) \<Longrightarrow>
   StringChecker_loop compare p what (xs @ [] # rest) = Inl IndexError"
proof (induction xs)
  case Nil
  then show ?case by simp
next
  case (Cons item xs)
  then show ?case
    by (simp add: StringChecker_loop_Cons del: StringChecker_loop.simps(2))
qed

lemma StringChecker_fits_nonempty:
  "\<forall>item \<in> set (getattr_field p field). item \<noteq> [] \<Longrightarrow>
   StringChecker_fits compare p field what =
     Inr (\<exists>item \<in> set (getattr_field p field). compare what (stripped p item))"
  by (simp add: StringChecker_fits_def StringChecker_loop_nonempty)

lemma StringFuzzyChecker_compare_iff:
  "StringFuzzyChecker_compare needle haystack \<longleftrightarrow> (\<exists>ps ss. haystack = ps @ needle @ ss)"
  by (simp add: StringFuzzyChecker_compare_def sublist_def)

lemma compare_examples:
  "\<not> StringExactChecker_compare ''sun'' ''sunny''"
  "StringExactChecker_compare ''sun'' ''sun''"
  "StringFuzzyChecker_compare ''sun'' ''sunny''"
  "StringFuzzyChecker_compare ''sun'' ''unsung''"
  "\<not> StringFuzzyChecker_compare ''x'' ''sunny''"
  by (simp_all add: StringExactChecker_compare_def StringFuzzyChecker_compare_def
        sublist_Cons_right prefix_code)

lemma RegexChecker_fits_never_raises:
  assumes "\<forall>i st en e. cr i st en = Inl e \<longrightarrow> e = InvalidPatternError"
  shows "\<exists>b. fst (RegexChecker_fits cr rm self p field what) = Inr b"
  using loop_never_raises[OF assms, of rm p what "getattr_field p field" self]
  by (auto simp: RegexChecker_fits_def split: prod.splits option.splits)

text \<open>
  C7 says that \<open>fits\<close> is true when some item of the list satisfies \<open>compare\<close>.  For
  the list \<open>["", "x"]\<close> and the value \<open>x\<close> the second item does, and the call does not
  return true: \<open>item[0]\<close> raises \<open>IndexError\<close> on the empty first item.
\<close>

theorem C7_empty_item_raises:
  "StringChecker_fits StringExactChecker_compare (example_policy ['''', ''x'']) ''subjects'' ''x''
     = Inl IndexError
   \<and> StringExactChecker_compare ''x'' (stripped (example_policy ['''', ''x'']) ''x'')"
  by (simp add: StringChecker_fits_def getattr_field_def example_policy_def
        StringExactChecker_compare_def stripped_def)

section \<open>Errors raised by the matching predicates\<close>

text \<open>
  The regex checker raises nothing as long as the compiler raises nothing but
  \<open>InvalidPatternError\<close> (lemma \<open>RegexChecker_fits_never_raises\<close>), and the
  string-equality condition always returns a boolean (lemma
  \<open>StringEqualCondition_total\<close>).

  C3 says that no matching predicate raises.  Both string checkers raise \<open>IndexError\<close>
  for a field that holds the empty string, and the pairs condition raises \<open>TypeError\<close>
  for the list \<open>[5]\<close>.
\<close>

theorem C3_predicates_raise:
  "StringChecker_fits StringExactChecker_compare (example_policy ['''']) ''subjects'' ''x''
     = Inl IndexError
   \<and> StringChecker_fits StringFuzzyChecker_compare (example_policy ['''']) ''subjects'' ''x''
     = Inl IndexError
   \<and> StringPairsEqualCondition_satisfied (PList [PInt 5]) () = Inl TypeError"
  by (simp add: StringChecker_fits_def getattr_field_def example_policy_def)

section \<open>Properties of the observable storage\<close>

lemma notify_calls_notify: "notify_calls (snd (notify self)) = Suc (notify_calls self)"
  by (simp add: notify_def split: prod.splits)

lemma notify_frame:
  "storage (snd (notify self)) = storage self \<and> observers (snd (notify self)) = observers self"
  by (simp add: notify_def split: prod.splits)

lemma run_observers_all:
  "\<forall>ob \<in> set obs. \<forall>w. fst (ob s w) = None \<Longrightarrow>
   run_observers obs s w n = (None, fold (\<lambda>ob w. snd (ob s w)) obs w, n + length obs)"
proof (induction obs arbitrary: w n)
  case Nil
  then show ?case by simp
next
  case (Cons ob obs)
  from Cons.prems have "fst (ob s w) = None" by simp
  then obtain w' where "ob s w = (None, w')" by (cases "ob s w") simp
  with Cons show ?case by simp
qed

text \<open>
  C4, as amended: \<open>add\<close>, \<open>update\<close> and \<open>delete\<close> of the observable storage delegate to
  the wrapped store.  When the delegate fails, its error is the result and nothing
  but the store, as the delegate left it, has changed: \<open>notify\<close> is not invoked.  When
  the delegate succeeds, \<open>notify\<close> is invoked exactly once, on the state with the
  mutation done, and the state after the call is the state after \<open>notify\<close>; the
  delegate's result is returned unchanged if \<open>notify\<close> returns, and the error of a
  failing subscriber is raised to the caller otherwise.
\<close>

theorem C4_mutations_notify_once:
  "(store_add policy (storage self) = (Inl e, s')
      \<longrightarrow> ObservableMutationStorage_add store_add policy self = (Inl e, self\<lparr>storage := s'\<rparr>))
   \<and> (store_add policy (storage self) = (Inr res, s')
      \<longrightarrow> snd (ObservableMutationStorage_add store_add policy self)
            = snd (notify (self\<lparr>storage := s'\<rparr>))
          \<and> notify_calls (snd (ObservableMutationStorage_add store_add policy self))
            = Suc (notify_calls self)
          \<and> fst (ObservableMutationStorage_add store_add policy self)
            = (case fst (notify (self\<lparr>storage := s'\<rparr>)) of None \<Rightarrow> Inr res | Some err \<Rightarrow> Inl err))
   \<and> (store_update policy (storage self) = (Inl e, s')
      \<longrightarrow> ObservableMutationStorage_update store_update policy self
            = (Inl e, self\<lparr>storage := s'\<rparr>))
   \<and> (store_update policy (storage self) = (Inr res, s')
      \<longrightarrow> snd (ObservableMutationStorage_update store_update policy self)
            = snd (notify (self\<lparr>storage := s'\<rparr>))
          \<and> notify_calls (snd (ObservableMutationStorage_update store_update policy self))
            = Suc (notify_calls self)
          \<and> fst (ObservableMutationStorage_update store_update policy self)
            = (case fst (notify (self\<lparr>storage := s'\<rparr>)) of None \<Rightarrow> Inr res | Some err \<Rightarrow> Inl err))
   \<and> (store_delete uid (storage self) = (Inl e, s')
      \<longrightarrow> ObservableMutationStorage_delete store_delete uid self
            = (Inl e, self\<lparr>storage := s'\<rparr>))
   \<and> (store_delete uid (storage self) = (Inr res, s')
      \<longrightarrow> snd (ObservableMutationStorage_delete store_delete uid self)
            = snd (notify (self\<lparr>storage := s'\<rparr>))
          \<and> notify_calls (snd (ObservableMutationStorage_delete store_delete uid self))
            = Suc (notify_calls self)
          \<and> fst (ObservableMutationStorage_delete store_delete uid self)
            = (case fst (notify (self\<lparr>storage := s'\<rparr>)) of None \<Rightarrow> Inr res | Some err \<Rightarrow> Inl err))"
proof -
  have n: "notify_calls (snd (notify (self\<lparr>storage := s'\<rparr>))) = Suc (notify_calls self)"
    by (simp add: notify_calls_notify)
  have add: "ObservableMutationStorage_add store_add policy self = (Inl e, self\<lparr>storage := s'\<rparr>)"
    if "store_add policy (storage self) = (Inl e, s')"
    using that by (simp add: ObservableMutationStorage_add_def)
  have add': "snd (ObservableMutationStorage_add store_add policy self) = snd (notify (self\<lparr>storage := s'\<rparr>))
      \<and> fst (ObservableMutationStorage_add store_add policy self)
            = (case fst (notify (self\<lparr>storage := s'\<rparr>)) of None \<Rightarrow> Inr res | Some err \<Rightarrow> Inl err)"
    if "store_add policy (storage self) = (Inr res, s')"
    using that by (simp add: ObservableMutationStorage_add_def split: prod.splits option.splits)
  have upd: "ObservableMutationStorage_update store_update policy self = (Inl e, self\<lparr>storage := s'\<rparr>)"
    if "store_update policy (storage self) = (Inl e, s')"
    using that by (simp add: ObservableMutationStorage_update_def)
  have upd': "snd (ObservableMutationStorage_update store_update policy self) = snd (notify (self\<lparr>storage := s'\<rparr>))
      \<and> fst (ObservableMutationStorage_update store_update policy self)
            = (case fst (notify (self\<lparr>storage := s'\<rparr>)) of None \<Rightarrow> Inr res | Some err \<Rightarrow> Inl err)"
    if "store_update policy (storage self) = (Inr res, s')"
    using that by (simp add: ObservableMutationStorage_update_def split: prod.splits option.splits)
  have del: "ObservableMutationStorage_delete store_delete uid self = (Inl e, self\<lparr>storage := s'\<rparr>)"
    if "store_delete uid (storage self) = (Inl e, s')"
    using that by (simp add: ObservableMutationStorage_delete_def)
  have del': "snd (ObservableMutationStorage_delete store_delete uid self) = snd (notify (self\<lparr>storage := s'\<rparr>))
      \<and> fst (ObservableMutationStorage_delete store_delete uid self)
            = (case fst (notify (self\<lparr>storage := s'\<rparr>)) of None \<Rightarrow> Inr res | Some err \<Rightarrow> Inl err)"
    if "store_delete uid (storage self) = (Inr res, s')"
    using that by (simp add: ObservableMutationStorage_delete_def split: prod.splits option.splits)
  show ?thesis
    using n add add' upd upd' del del' by simp
qed

text \<open>
  A failing store leaves the wrapper untouched; a working store and a counting
  subscriber give the store's result and one notification; a failing subscriber turns
  the successful update into its error.
\<close>

theorem C4_mutations_notify_once_witness:
  "ObservableMutationStorage_add broken_store_add 7 watched_store
     = (Inl (StoreError ''down''), watched_store)
   \<and> ObservableMutationStorage_add list_store_add 7 watched_store
     = (Inr 0, watched_store\<lparr>storage := [7], world := 1, notify_calls := 1, observer_calls := 1\<rparr>)
   \<and> ObservableMutationStorage_update list_store_add 7 badly_watched_store
     = (Inl (ObserverError ''boom''),
        badly_watched_store\<lparr>storage := [7], notify_calls := 1, observer_calls := 1\<rparr>)
   \<and> ObservableMutationStorage_update broken_store_add 7 watched_store
     = (Inl (StoreError ''down''), watched_store)
   \<and> fst (ObservableMutationStorage_delete list_store_add 7 watched_store) = Inr 0
   \<and> notify_calls (snd (ObservableMutationStorage_delete list_store_add 7 watched_store)) = 1
   \<and> ObservableMutationStorage_delete broken_store_add 7 watched_store
     = (Inl (StoreError ''down''), watched_store)"
proof -
  have fail: "broken_store_add 7 (storage watched_store) = (Inl (StoreError ''down''), [])"
    by (simp add: broken_store_add_def watched_store_def subscribe_def
          ObservableMutationStorage_init_def)
  have ok: "list_store_add 7 (storage watched_store) = (Inr 0, [7])"
    "list_store_add 7 (storage badly_watched_store) = (Inr 0, [7])"
    by (simp_all add: list_store_add_def watched_store_def badly_watched_store_def subscribe_def
          ObservableMutationStorage_init_def)
  have n1: "notify (watched_store\<lparr>storage := [7]\<rparr>)
      = (None, watched_store\<lparr>storage := [7], world := 1, notify_calls := 1, observer_calls := 1\<rparr>)"
    by (simp add: notify_def watched_store_def subscribe_def ObservableMutationStorage_init_def
          counting_observer_def)
  have n2: "notify (badly_watched_store\<lparr>storage := [7]\<rparr>)
      = (Some (ObserverError ''boom''),
         badly_watched_store\<lparr>storage := [7], notify_calls := 1, observer_calls := 1\<rparr>)"
    by (simp add: notify_def badly_watched_store_def subscribe_def
          ObservableMutationStorage_init_def failing_observer_def)
  have same: "watched_store\<lparr>storage := []\<rparr> = watched_store"
    by (simp add: watched_store_def subscribe_def ObservableMutationStorage_init_def)
  have z: "notify_calls watched_store = 0"
    by (simp add: watched_store_def subscribe_def ObservableMutationStorage_init_def)
  note t1 = C4_mutations_notify_once[where store_add = broken_store_add
      and store_update = broken_store_add and store_delete = broken_store_add
      and policy = 7 and uid = 7 and self = watched_store
      and e = "StoreError ''down''" and s' = "[]"]
  note t2 = C4_mutations_notify_once[where store_add = list_store_add
      and store_update = list_store_add and store_delete = list_store_add
      and policy = 7 and uid = 7 and self = watched_store and res = 0 and s' = "[7]"]
  note t3 = C4_mutations_notify_once[where store_add = list_store_add
      and store_update = list_store_add and store_delete = list_store_add
      and policy = 7 and uid = 7 and self = badly_watched_store and res = 0 and s' = "[7]"]
  from t1 fail same
  have a: "ObservableMutationStorage_add broken_store_add 7 watched_store
             = (Inl (StoreError ''down''), watched_store)"
    and b: "ObservableMutationStorage_update broken_store_add 7 watched_store
             = (Inl (StoreError ''down''), watched_store)"
    and c: "ObservableMutationStorage_delete broken_store_add 7 watched_store
             = (Inl (StoreError ''down''), watched_store)"
    by simp_all
  from t2 ok(1) n1 z
  have d: "ObservableMutationStorage_add list_store_add 7 watched_store
     = (Inr 0, watched_store\<lparr>storage := [7], world := 1, notify_calls := 1, observer_calls := 1\<rparr>)"
    and e: "fst (ObservableMutationStorage_delete list_store_add 7 watched_store) = Inr 0"
    and f: "notify_calls (snd (ObservableMutationStorage_delete list_store_add 7 watched_store)) = 1"
    by (simp_all add: prod_eq_iff)
  from t3 ok(2) n2
  have g: "ObservableMutationStorage_update list_store_add 7 badly_watched_store
     = (Inl (ObserverError ''boom''),
        badly_watched_store\<lparr>storage := [7], notify_calls := 1, observer_calls := 1\<rparr>)"
    by (simp add: prod_eq_iff)
  from a b c d e f g show ?thesis by simp
qed

text \<open>
  C4 as stated fails: the store adds the policy and returns \<open>0\<close>, and \<open>add\<close> of the
  wrapper does not return that result but raises the error of the failing subscriber.
\<close>

theorem C4_failing_observer:
  "list_store_add 7 (storage badly_watched_store) = (Inr 0, [7])
   \<and> fst (ObservableMutationStorage_add list_store_add 7 badly_watched_store)
       = Inl (ObserverError ''boom'')"
  by (simp add: ObservableMutationStorage_add_def list_store_add_def badly_watched_store_def
        subscribe_def ObservableMutationStorage_init_def notify_def failing_observer_def)

text \<open>
  C9: \<open>get\<close>, \<open>get_all\<close> and \<open>find_for_inquiry\<close> of the observable storage return the
  result or the error of the wrapped store as it is, and the state after the call is
  the state before it with the store as the delegate left it, hence unchanged when the
  delegate leaves the store unchanged: \<open>notify\<close> and the subscribers are not
  invoked, and the subscriber list and the state of the subscribers are the same.
\<close>

theorem C9_reads_delegate:
  "fst (ObservableMutationStorage_get store_get uid self) = fst (store_get uid (storage self))
   \<and> snd (ObservableMutationStorage_get store_get uid self)
       = self\<lparr>storage := snd (store_get uid (storage self))\<rparr>
   \<and> (snd (store_get uid (storage self)) = storage self
        \<longrightarrow> snd (ObservableMutationStorage_get store_get uid self) = self)
   \<and> fst (ObservableMutationStorage_get_all store_get_all limit offset self)
       = fst (store_get_all limit offset (storage self))
   \<and> snd (ObservableMutationStorage_get_all store_get_all limit offset self)
       = self\<lparr>storage := snd (store_get_all limit offset (storage self))\<rparr>
   \<and> (snd (store_get_all limit offset (storage self)) = storage self
        \<longrightarrow> snd (ObservableMutationStorage_get_all store_get_all limit offset self) = self)
   \<and> fst (ObservableMutationStorage_find_for_inquiry store_find_for_inquiry inquiry checker self)
       = fst (store_find_for_inquiry inquiry checker (storage self))
   \<and> snd (ObservableMutationStorage_find_for_inquiry store_find_for_inquiry inquiry checker self)
       = self\<lparr>storage := snd (store_find_for_inquiry inquiry checker (storage self))\<rparr>
   \<and> (snd (store_find_for_inquiry inquiry checker (storage self)) = storage self
        \<longrightarrow> snd (ObservableMutationStorage_find_for_inquiry store_find_for_inquiry inquiry
                  checker self) = self)
   \<and> notify_calls (snd (ObservableMutationStorage_get store_get uid self)) = notify_calls self
   \<and> observer_calls (snd (ObservableMutationStorage_get store_get uid self)) = observer_calls self
   \<and> observers (snd (ObservableMutationStorage_get store_get uid self)) = observers self
   \<and> world (snd (ObservableMutationStorage_get store_get uid self)) = world self
   \<and> notify_calls (snd (ObservableMutationStorage_get_all store_get_all limit offset self)) = notify_calls self
   \<and> observer_calls (snd (ObservableMutationStorage_get_all store_get_all limit offset self)) = observer_calls self
   \<and> observers (snd (ObservableMutationStorage_get_all store_get_all limit offset self)) = observers self
   \<and> world (snd (ObservableMutationStorage_get_all store_get_all limit offset self)) = world self
   \<and> notify_calls (snd (ObservableMutationStorage_find_for_inquiry store_find_for_inquiry inquiry checker
          self)) = notify_calls self
   \<and> observer_calls (snd (ObservableMutationStorage_find_for_inquiry store_find_for_inquiry inquiry checker
          self)) = observer_calls self
   \<and> observers (snd (ObservableMutationStorage_find_for_inquiry store_find_for_inquiry inquiry checker
          self)) = observers self
   \<and> world (snd (ObservableMutationStorage_find_for_inquiry store_find_for_inquiry inquiry checker
          self)) = world self"
  by (simp add: ObservableMutationStorage_get_def ObservableMutationStorage_get_all_def
        ObservableMutationStorage_find_for_inquiry_def split: prod.splits)


text \<open>The three reads on the watched empty store.\<close>

theorem C9_reads_delegate_witness:
  "ObservableMutationStorage_get list_store_get 0 watched_store
     = (Inl (StoreError ''missing''), watched_store)
   \<and> ObservableMutationStorage_get_all list_store_get_all 10 0 watched_store
     = (Inr 0, watched_store)
   \<and> ObservableMutationStorage_find_for_inquiry list_store_find 7 None watched_store
     = (Inr 0, watched_store)"
proof -
  have g: "list_store_get 0 (storage watched_store) = (Inl (StoreError ''missing''), storage watched_store)"
    by (simp add: list_store_get_def watched_store_def subscribe_def
          ObservableMutationStorage_init_def)
  have a: "list_store_get_all 10 0 (storage watched_store) = (Inr 0, storage watched_store)"
    by (simp add: list_store_get_all_def watched_store_def subscribe_def
          ObservableMutationStorage_init_def)
  have f: "list_store_find 7 None (storage watched_store) = (Inr 0, storage watched_store)"
    by (simp add: list_store_find_def watched_store_def subscribe_def
          ObservableMutationStorage_init_def)
  from C9_reads_delegate[where store_get = list_store_get and uid = 0
      and store_get_all = list_store_get_all and limit = 10 and offset = 0
      and store_find_for_inquiry = list_store_find and inquiry = 7 and checker = None
      and self = watched_store] g a f
  show ?thesis by (simp add: prod_eq_iff)
qed

end
